theory Spec2Isabelle
  imports Main "HOL-Library.Word"
begin

section \<open>The Go library\<close>

text \<open>
  Go strings are byte sequences; \<open>string\<close> is a list of 8-bit characters.

  Four functions of the Go standard library are parameters of the model, collected in a
  record: \<^verbatim>\<open>strings.ToLower\<close> and \<^verbatim>\<open>strings.TrimSpace\<close>, with which the memory cache
  normalises index keys (both work on the Unicode code points of a string and treat
  invalid UTF-8 in their own way), the SHA-256 sum of \<^verbatim>\<open>crypto/sha256\<close> and the rendering
  \<^verbatim>\<open>fmt.Sprintf("%v\n", v)\<close> of a value. The sum is a 256-bit word, so its hexadecimal
  encoding always has 64 digits.
\<close>

record 'v runtime =
  ToLower :: "string \<Rightarrow> string"
  TrimSpace :: "string \<Rightarrow> string"
  sha256_Sum :: "string \<Rightarrow> 256 word"
  Sprintf_v :: "'v \<Rightarrow> string"

text \<open>\<^verbatim>\<open>MemoryCache.normalizeKey\<close>: \<^verbatim>\<open>strings.ToLower(strings.TrimSpace(key))\<close>.\<close>

definition normalizeKey :: "('v, 'x) runtime_scheme \<Rightarrow> string \<Rightarrow> string" where
  "normalizeKey rt key = ToLower rt (TrimSpace rt key)"

text \<open>
  Three facts about the two library functions: lower-casing twice is lower-casing once,
  trimming twice is trimming once, and lower-casing neither adds nor removes white space
  at the ends of a string, so that it commutes with trimming.
\<close>

definition normalisation_laws :: "('v, 'x) runtime_scheme \<Rightarrow> bool" where
  "normalisation_laws rt =
     ((\<forall>s. ToLower rt (ToLower rt s) = ToLower rt s)
      \<and> (\<forall>s. TrimSpace rt (TrimSpace rt s) = TrimSpace rt s)
      \<and> (\<forall>s. TrimSpace rt (ToLower rt s) = ToLower rt (TrimSpace rt s)))"


section \<open>Digest\<close>

text \<open>\<^verbatim>\<open>sha256Hash\<close> hex-encodes the 32-byte SHA-256 sum of a string.\<close>

definition hexDigit :: "nat \<Rightarrow> char" where
  "hexDigit n = ''0123456789abcdef'' ! (n mod 16)"

definition EncodeToString :: "256 word \<Rightarrow> string" where
  "EncodeToString w = map (\<lambda>i. hexDigit (unat (drop_bit (4 * (63 - i)) w))) [0..<64]"

definition sha256Hash :: "('v, 'x) runtime_scheme \<Rightarrow> string \<Rightarrow> string" where
  "sha256Hash rt s = EncodeToString (sha256_Sum rt s)"

definition defaultHashFunc :: "('v, 'x) runtime_scheme \<Rightarrow> 'v list \<Rightarrow> string" where
  "defaultHashFunc rt values =
     (if values = [] then sha256Hash rt ''empty''
      else sha256Hash rt (concat (map (\<lambda>v. Sprintf_v rt v @ [CHR 0x0A]) values)))"


section \<open>Configuration\<close>

text \<open>
  \<^verbatim>\<open>Config[V]\<close>: every field is a function value that may be nil. A \<^verbatim>\<open>ValidateFunc\<close> returns
  an error or nil; the error is its message.
\<close>

record 'v Config =
  PrimaryKeyFunc :: "('v \<Rightarrow> string) option"
  HashFunc :: "('v list \<Rightarrow> string) option"
  ValidateFunc :: "('v \<Rightarrow> string option) option"
  NormalizeFunc :: "('v \<Rightarrow> 'v) option"
  SortFunc :: "('v list \<Rightarrow> 'v list) option"

definition DefaultConfig :: "('v, 'x) runtime_scheme \<Rightarrow> 'v Config" where
  "DefaultConfig rt =
     \<lparr>PrimaryKeyFunc = None, HashFunc = Some (defaultHashFunc rt), ValidateFunc = None,
      NormalizeFunc = None, SortFunc = None\<rparr>"

definition WithPrimaryKey :: "('v \<Rightarrow> string) \<Rightarrow> 'v Config \<Rightarrow> 'v Config" where
  "WithPrimaryKey fn c = c\<lparr>PrimaryKeyFunc := Some fn\<rparr>"

definition WithValidateFunc :: "('v \<Rightarrow> string option) \<Rightarrow> 'v Config \<Rightarrow> 'v Config" where
  "WithValidateFunc fn c = c\<lparr>ValidateFunc := Some fn\<rparr>"

definition WithNormalizeFunc :: "('v \<Rightarrow> 'v) \<Rightarrow> 'v Config \<Rightarrow> 'v Config" where
  "WithNormalizeFunc fn c = c\<lparr>NormalizeFunc := Some fn\<rparr>"


section \<open>The memory cache\<close>

text \<open>
  \<^verbatim>\<open>MemoryCache[V]\<close>. The lock \<^verbatim>\<open>mu\<close> is left out: every method holds it for its whole body,
  so each method is one atomic step on the remaining fields.
\<close>

record 'v MemoryCache =
  config :: "'v Config"
  data :: "string \<rightharpoonup> 'v"
  order :: "string list"
  indexes :: "string \<rightharpoonup> (string \<rightharpoonup> string)"
  indexFns :: "string \<rightharpoonup> ('v \<Rightarrow> string)"
  hash :: string

text \<open>
  The panics of the package: the first two are those of the memory cache (the explicit
  one of \<^verbatim>\<open>Set\<close> and Go's own on an assignment into a nil map), the others those of the
  constructors of the remote adapter.
\<close>

datatype panic =
  PanicNoPrimaryKeyFunc
  | PanicNilMapAssignment
  | PanicKeyPrefixEmpty
  | PanicKeyEmpty
  | PanicVersionKeySuffixEmpty
  | PanicDataKeyEmpty
  | PanicVersionKeyInvalid
  | PanicKeyTooLong

definition NewMultiIndexCache :: "('v, 'x) runtime_scheme \<Rightarrow> 'v Config option \<Rightarrow> 'v MemoryCache" where
  "NewMultiIndexCache rt cfg =
     \<lparr>config = (case cfg of None \<Rightarrow> DefaultConfig rt | Some c \<Rightarrow> c),
      data = Map.empty, order = [], indexes = Map.empty, indexFns = Map.empty, hash = []\<rparr>"

text \<open>
  The loop of \<^verbatim>\<open>AddIndex\<close> ranges over the map \<^verbatim>\<open>c.data\<close>. Go leaves the order of such a
  loop unspecified, so the order in which the primary keys are visited is an argument:
  any list that enumerates the keys of \<^verbatim>\<open>c.data\<close> once each (\<open>range_order\<close>).
\<close>

definition range_order :: "('k \<rightharpoonup> 'a) \<Rightarrow> 'k list \<Rightarrow> bool" where
  "range_order m ks = (distinct ks \<and> set ks = dom m)"

fun rebuildIndex ::
  "('v, 'x) runtime_scheme \<Rightarrow> ('v \<Rightarrow> string) \<Rightarrow> (string \<rightharpoonup> 'v) \<Rightarrow> string list \<Rightarrow> (string \<rightharpoonup> string) \<Rightarrow> (string \<rightharpoonup> string)"
where
  "rebuildIndex rt keyFunc d [] idx = idx"
| "rebuildIndex rt keyFunc d (pk # pks) idx =
     (case d pk of
        None \<Rightarrow> rebuildIndex rt keyFunc d pks idx
      | Some v \<Rightarrow>
          (let indexKey = keyFunc v
           in rebuildIndex rt keyFunc d pks
                (if indexKey \<noteq> [] then idx(normalizeKey rt indexKey \<mapsto> pk) else idx)))"

definition MemoryCache_AddIndex ::
  "('v, 'x) runtime_scheme \<Rightarrow> string list \<Rightarrow> string \<Rightarrow> ('v \<Rightarrow> string) \<Rightarrow> 'v MemoryCache \<Rightarrow> 'v MemoryCache"
where
  "MemoryCache_AddIndex rt visit name keyFunc c =
     c\<lparr>indexFns := (indexFns c)(name \<mapsto> keyFunc),
       indexes := (indexes c)(name \<mapsto> rebuildIndex rt keyFunc (data c) visit Map.empty)\<rparr>"

definition MemoryCache_RemoveIndex :: "string \<Rightarrow> 'v MemoryCache \<Rightarrow> 'v MemoryCache" where
  "MemoryCache_RemoveIndex name c =
     c\<lparr>indexFns := (indexFns c)(name := None), indexes := (indexes c)(name := None)\<rparr>"

definition MemoryCache_HasIndex :: "'v MemoryCache \<Rightarrow> string \<Rightarrow> bool" where
  "MemoryCache_HasIndex c name = (indexFns c name \<noteq> None)"

text \<open>A lookup returns \<^verbatim>\<open>(value, true)\<close> or \<^verbatim>\<open>(zero, false)\<close>: \<open>Some value\<close> or \<open>None\<close>.\<close>

definition MemoryCache_GetByIndex ::
  "('v, 'x) runtime_scheme \<Rightarrow> 'v MemoryCache \<Rightarrow> string \<Rightarrow> string \<Rightarrow> 'v option" where
  "MemoryCache_GetByIndex rt c indexName key =
     (case indexes c indexName of
        None \<Rightarrow> None
      | Some index \<Rightarrow>
          (case index (normalizeKey rt key) of
             None \<Rightarrow> None
           | Some pk \<Rightarrow> data c pk))"

definition MemoryCache_Get :: "'v MemoryCache \<Rightarrow> string \<Rightarrow> 'v option" where
  "MemoryCache_Get c key = data c key"

definition MemoryCache_GetAll :: "'v MemoryCache \<Rightarrow> 'v list" where
  "MemoryCache_GetAll c = List.map_filter (data c) (order c)"

definition MemoryCache_Len :: "'v MemoryCache \<Rightarrow> nat" where
  "MemoryCache_Len c = card (dom (data c))"

definition MemoryCache_GetHash :: "'v MemoryCache \<Rightarrow> string" where
  "MemoryCache_GetHash c = hash c"

text \<open>
  \<^verbatim>\<open>Set\<close> and \<^verbatim>\<open>Clear\<close> both replace the inner map of every name in \<^verbatim>\<open>c.indexes\<close> by a
  new empty map.
\<close>

definition clearIndexes :: "(string \<rightharpoonup> (string \<rightharpoonup> string)) \<Rightarrow> (string \<rightharpoonup> (string \<rightharpoonup> string))" where
  "clearIndexes idxs = (\<lambda>name. case idxs name of None \<Rightarrow> None | Some _ \<Rightarrow> Some Map.empty)"

definition MemoryCache_Clear :: "'v MemoryCache \<Rightarrow> 'v MemoryCache" where
  "MemoryCache_Clear c =
     c\<lparr>data := Map.empty, order := [],
       indexes := clearIndexes (indexes c),
       hash := []\<rparr>"


text \<open>
  \<^verbatim>\<open>Set\<close> treats each input value in turn: normalise it if a \<^verbatim>\<open>NormalizeFunc\<close> is set,
  skip it if the \<^verbatim>\<open>ValidateFunc\<close> returns an error, extract the primary key (the empty
  string when no \<^verbatim>\<open>PrimaryKeyFunc\<close> is set) and skip the value if the key is empty.
\<close>

definition normalizeValue :: "'v Config \<Rightarrow> 'v \<Rightarrow> 'v" where
  "normalizeValue cfg v = (case NormalizeFunc cfg of None \<Rightarrow> v | Some f \<Rightarrow> f v)"

definition validateFails :: "'v Config \<Rightarrow> 'v \<Rightarrow> bool" where
  "validateFails cfg v = (case ValidateFunc cfg of None \<Rightarrow> False | Some f \<Rightarrow> f v \<noteq> None)"

definition primaryKey :: "'v Config \<Rightarrow> 'v \<Rightarrow> string" where
  "primaryKey cfg v = (case PrimaryKeyFunc cfg of None \<Rightarrow> [] | Some f \<Rightarrow> f v)"

text \<open>
  The inner loop of \<^verbatim>\<open>Set\<close> ranges over \<^verbatim>\<open>c.indexFns\<close> and writes
  \<^verbatim>\<open>c.indexes[name][normalizeKey(indexKey)] = pk\<close>. Each round touches the inner map of its
  own name only, so the rounds are independent and the loop is one pointwise update.
  Writing into the inner map of a name that \<^verbatim>\<open>c.indexes\<close> does not hold is an assignment
  to an entry of a nil map, which panics in Go: \<open>nilIndexWrite\<close> says that some round
  does so.
\<close>

definition nilIndexWrite ::
  "(string \<rightharpoonup> ('v \<Rightarrow> string)) \<Rightarrow> (string \<rightharpoonup> (string \<rightharpoonup> string)) \<Rightarrow> 'v \<Rightarrow> bool"
where
  "nilIndexWrite fns idxs v = (\<exists>name \<in> dom fns. idxs name = None \<and> the (fns name) v \<noteq> [])"

definition updateIndexes ::
  "('v, 'x) runtime_scheme \<Rightarrow> (string \<rightharpoonup> ('v \<Rightarrow> string)) \<Rightarrow> 'v \<Rightarrow> string \<Rightarrow> (string \<rightharpoonup> (string \<rightharpoonup> string))
     \<Rightarrow> (string \<rightharpoonup> (string \<rightharpoonup> string))"
where
  "updateIndexes rt fns v pk idxs =
     (\<lambda>name. case fns name of
        None \<Rightarrow> idxs name
      | Some keyFunc \<Rightarrow>
          (case idxs name of
             None \<Rightarrow> None
           | Some index \<Rightarrow>
               (let indexKey = keyFunc v
                in if indexKey \<noteq> [] then Some (index(normalizeKey rt indexKey \<mapsto> pk))
                   else Some index)))"

text \<open>
  The main loop of \<^verbatim>\<open>Set\<close> over the input values, on the triple of \<^verbatim>\<open>c.data\<close>,
  \<^verbatim>\<open>c.order\<close> and \<^verbatim>\<open>c.indexes\<close>. A panic ends the call: the result is the panic alone,
  without the fields the call had changed by then.
\<close>

fun setLoop ::
  "('v, 'x) runtime_scheme \<Rightarrow> 'v Config \<Rightarrow> (string \<rightharpoonup> ('v \<Rightarrow> string)) \<Rightarrow> 'v list
     \<Rightarrow> (string \<rightharpoonup> 'v) \<times> string list \<times> (string \<rightharpoonup> (string \<rightharpoonup> string))
     \<Rightarrow> panic + (string \<rightharpoonup> 'v) \<times> string list \<times> (string \<rightharpoonup> (string \<rightharpoonup> string))"
where
  "setLoop rt cfg fns [] s = Inr s"
| "setLoop rt cfg fns (v0 # vs) (d, ord, idxs) =
     (let v = normalizeValue cfg v0
      in if validateFails cfg v then setLoop rt cfg fns vs (d, ord, idxs)
         else
           (let pk = primaryKey cfg v
            in if pk = [] then setLoop rt cfg fns vs (d, ord, idxs)
               else if nilIndexWrite fns idxs v then Inl PanicNilMapAssignment
               else setLoop rt cfg fns vs
                      (d(pk \<mapsto> v), (if d pk = None then ord @ [pk] else ord),
                       updateIndexes rt fns v pk idxs)))"

definition calculateHash :: "('v, 'x) runtime_scheme \<Rightarrow> 'v MemoryCache \<Rightarrow> string" where
  "calculateHash rt c =
     (if data c = Map.empty then sha256Hash rt ''empty''
      else
        (let values = List.map_filter (data c) (order c);
             values = (case SortFunc (config c) of None \<Rightarrow> values | Some f \<Rightarrow> f values)
         in case HashFunc (config c) of
              Some h \<Rightarrow> h values
            | None \<Rightarrow> defaultHashFunc rt values))"

text \<open>
  \<^verbatim>\<open>Set\<close>. The panic for a missing \<^verbatim>\<open>PrimaryKeyFunc\<close> is raised before anything is
  changed. A nil and an empty slice are both the empty list.
\<close>

definition MemoryCache_Set ::
  "('v, 'x) runtime_scheme \<Rightarrow> 'v MemoryCache \<Rightarrow> 'v list \<Rightarrow> panic + 'v MemoryCache"
where
  "MemoryCache_Set rt c values =
     (if values \<noteq> [] \<and> PrimaryKeyFunc (config c) = None then Inl PanicNoPrimaryKeyFunc
      else
        (case setLoop rt (config c) (indexFns c) values (Map.empty, [], clearIndexes (indexes c)) of
           Inl p \<Rightarrow> Inl p
         | Inr (d, ord, idxs) \<Rightarrow>
             (let c' = c\<lparr>data := d, order := ord, indexes := idxs\<rparr>
              in Inr (c'\<lparr>hash := calculateHash rt c'\<rparr>))))"

text \<open>
  \<^verbatim>\<open>Iterate\<close> calls \<^verbatim>\<open>fn\<close> on the stored values in insertion order until \<^verbatim>\<open>fn\<close> returns
  false. The model returns the values \<^verbatim>\<open>fn\<close> was called on, in order.
\<close>

fun iterate :: "('v \<Rightarrow> bool) \<Rightarrow> (string \<rightharpoonup> 'v) \<Rightarrow> string list \<Rightarrow> 'v list" where
  "iterate fn d [] = []"
| "iterate fn d (pk # pks) =
     (case d pk of
        None \<Rightarrow> iterate fn d pks
      | Some v \<Rightarrow> if \<not> fn v then [v] else v # iterate fn d pks)"

definition MemoryCache_Iterate :: "'v MemoryCache \<Rightarrow> ('v \<Rightarrow> bool) \<Rightarrow> 'v list" where
  "MemoryCache_Iterate c fn = iterate fn (data c) (order c)"

text \<open>
  The states a memory cache can be in: those built by \<^verbatim>\<open>NewMultiIndexCache\<close> and changed
  by \<^verbatim>\<open>Set\<close>, \<^verbatim>\<open>Clear\<close>, \<^verbatim>\<open>AddIndex\<close> and \<^verbatim>\<open>RemoveIndex\<close>. A call of \<^verbatim>\<open>Set\<close> that panics
  leaves no new state.
\<close>

inductive reachable :: "('v, 'x) runtime_scheme \<Rightarrow> 'v MemoryCache \<Rightarrow> bool" for rt where
  reach_New: "reachable rt (NewMultiIndexCache rt cfg)"
| reach_Set: "reachable rt c \<Longrightarrow> MemoryCache_Set rt c vs = Inr c' \<Longrightarrow> reachable rt c'"
| reach_Clear: "reachable rt c \<Longrightarrow> reachable rt (MemoryCache_Clear c)"
| reach_AddIndex:
    "reachable rt c \<Longrightarrow> range_order (data c) visit \<Longrightarrow>
     reachable rt (MemoryCache_AddIndex rt visit name keyFunc c)"
| reach_RemoveIndex: "reachable rt c \<Longrightarrow> reachable rt (MemoryCache_RemoveIndex name c)"

text \<open>
  Both index registries hold the same names: \<^verbatim>\<open>AddIndex\<close> and \<^verbatim>\<open>RemoveIndex\<close> change them
  together, and no other method adds or removes a name.
\<close>

definition indexes_registered :: "'v MemoryCache \<Rightarrow> bool" where
  "indexes_registered c = (dom (indexes c) = dom (indexFns c))"

section \<open>What the specification says of a bulk load\<close>

text \<open>
  The values of an input that pass validation after normalisation, and among them the
  accepted ones, whose primary key is not empty.
\<close>

definition passValidation :: "'v Config \<Rightarrow> 'v list \<Rightarrow> 'v list" where
  "passValidation cfg vs = filter (\<lambda>v. \<not> validateFails cfg v) (map (normalizeValue cfg) vs)"

definition accepted :: "'v Config \<Rightarrow> 'v list \<Rightarrow> 'v list" where
  "accepted cfg vs = filter (\<lambda>v. primaryKey cfg v \<noteq> []) (passValidation cfg vs)"

text \<open>The last value of a list that has a given key, if there is one.\<close>

definition lastWithKey :: "('v \<Rightarrow> string) \<Rightarrow> 'v list \<Rightarrow> string \<Rightarrow> 'v option" where
  "lastWithKey pk vs k = (case filter (\<lambda>v. pk v = k) vs of [] \<Rightarrow> None | w # ws \<Rightarrow> Some (last (w # ws)))"

text \<open>The elements of a list in the order of their first occurrence.\<close>

fun first_occurrences :: "'a list \<Rightarrow> 'a list" where
  "first_occurrences [] = []"
| "first_occurrences (x # xs) = x # removeAll x (first_occurrences xs)"

text \<open>A list of values as pairs of primary key and value.\<close>

definition keyed :: "'v Config \<Rightarrow> 'v list \<Rightarrow> (string \<times> 'v) list" where
  "keyed cfg ws = map (\<lambda>v. (primaryKey cfg v, v)) ws"

section \<open>Test data\<close>

text \<open>
  The value type of the repository's tests with its key, validation and normalisation
  functions, and a stand-in for the digest and the rendering of a value.
\<close>

record TestUser =
  ID :: string
  Email :: string
  Phone :: string
  Name :: string

text \<open>
  On ASCII strings \<^verbatim>\<open>strings.TrimSpace\<close> removes the six ASCII white-space bytes (tab, line
  feed, vertical tab, form feed, carriage return, space) from both ends and
  \<^verbatim>\<open>strings.ToLower\<close> maps \<^verbatim>\<open>A..Z\<close> to \<^verbatim>\<open>a..z\<close>. The test data are ASCII, and the test
  runtime takes these two functions for the library's.
\<close>

definition asciiSpace :: "char \<Rightarrow> bool" where
  "asciiSpace c = (let n = (of_char c :: nat) in (9 \<le> n \<and> n \<le> 13) \<or> n = 32)"

definition asciiLowerChar :: "char \<Rightarrow> char" where
  "asciiLowerChar c =
     (let n = (of_char c :: nat) in if 65 \<le> n \<and> n \<le> 90 then char_of (n + 32) else c)"

definition asciiTrimSpace :: "string \<Rightarrow> string" where
  "asciiTrimSpace s = rev (dropWhile asciiSpace (rev (dropWhile asciiSpace s)))"

definition asciiToLower :: "string \<Rightarrow> string" where
  "asciiToLower s = map asciiLowerChar s"

definition testRuntime :: "TestUser runtime" where
  "testRuntime =
     \<lparr>ToLower = asciiToLower, TrimSpace = asciiTrimSpace,
      sha256_Sum = (\<lambda>s. of_nat (length s)), Sprintf_v = ID\<rparr>"

definition requireEmail :: "TestUser \<Rightarrow> string option" where
  "requireEmail u = (if Email u = [] then Some ''email is required'' else None)"

definition markNormalized :: "TestUser \<Rightarrow> TestUser" where
  "markNormalized u = u\<lparr>Name := ''Normalized: '' @ Name u\<rparr>"

definition testConfig :: "TestUser Config" where
  "testConfig = WithPrimaryKey ID (DefaultConfig testRuntime)"

definition pipelineConfig :: "TestUser Config" where
  "pipelineConfig = WithNormalizeFunc markNormalized (WithValidateFunc requireEmail testConfig)"

definition testUser :: "string \<Rightarrow> string \<Rightarrow> string \<Rightarrow> TestUser" where
  "testUser i e n = \<lparr>ID = i, Email = e, Phone = [], Name = n\<rparr>"

definition pipelineCache :: "TestUser MemoryCache" where
  "pipelineCache =
     MemoryCache_AddIndex testRuntime [] ''email'' Email
       (NewMultiIndexCache testRuntime (Some pipelineConfig))"

definition pipelineInput :: "TestUser list" where
  "pipelineInput =
     [testUser ''3'' ''c@example.com'' ''Third'',
      testUser ''1'' ''first@example.com'' ''First'',
      testUser ''2'' [] ''Invalid'',
      testUser [] ''noid@example.com'' ''NoID'',
      testUser ''1'' ''second@example.com'' ''Second'',
      testUser ''2'' ''b@example.com'' ''Two'']"

section \<open>Invariants of the memory cache\<close>

text \<open>The order sequence lists the keys of the primary mapping, each once.\<close>

definition order_matches_data :: "'v MemoryCache \<Rightarrow> bool" where
  "order_matches_data c = (distinct (order c) \<and> set (order c) = dom (data c))"

text \<open>Every value is stored under its own primary key.\<close>

definition keys_match_values :: "'v MemoryCache \<Rightarrow> bool" where
  "keys_match_values c = (\<forall>k \<in> dom (data c). primaryKey (config c) (the (data c k)) = k)"

text \<open>A cache built with a nil configuration, which has no primary-key extractor.\<close>

definition bareCache :: "TestUser MemoryCache" where
  "bareCache = NewMultiIndexCache testRuntime None"

text \<open>
  A cache with a primary-key extractor and no index, and the input of the test of
  duplicate primary keys: two values with the primary key 1 and different e-mails.
\<close>

definition keyedCache :: "TestUser MemoryCache" where
  "keyedCache = NewMultiIndexCache testRuntime (Some testConfig)"

definition duplicateInput :: "TestUser list" where
  "duplicateInput =
     [testUser ''1'' ''first@example.com'' ''First'',
      testUser ''1'' ''second@example.com'' ''Second'']"

text \<open>Two values with different primary keys and the same e-mail.\<close>

definition sharedEmailInput :: "TestUser list" where
  "sharedEmailInput =
     [testUser ''1'' ''shared@example.com'' ''One'',
      testUser ''2'' ''shared@example.com'' ''Two'']"


section \<open>Decimal integers\<close>

text \<open>
  The version counter is stored as a decimal string. \<open>formatInt\<close> is the canonical
  decimal form of an integer, the one the server writes after an increment;
  \<open>ParseInt64\<close> is \<^verbatim>\<open>strconv.ParseInt(s, 10, 64)\<close>, which the client's \<^verbatim>\<open>Int64()\<close> applies to a
  reply: an optional sign, then one or more digits, within the range of a signed 64-bit
  integer.
\<close>

definition digitChar :: "nat \<Rightarrow> char" where
  "digitChar d = char_of (48 + d)"

fun formatNat :: "nat \<Rightarrow> string" where
  "formatNat n = (if n < 10 then [digitChar n] else formatNat (n div 10) @ [digitChar (n mod 10)])"

definition formatInt :: "int \<Rightarrow> string" where
  "formatInt i = (if i < 0 then CHR ''-'' # formatNat (nat (- i)) else formatNat (nat i))"

definition digitValue :: "char \<Rightarrow> nat option" where
  "digitValue c = (let n = (of_char c :: nat) in if 48 \<le> n \<and> n \<le> 57 then Some (n - 48) else None)"

fun parseDigits :: "string \<Rightarrow> nat \<Rightarrow> nat option" where
  "parseDigits [] acc = Some acc"
| "parseDigits (c # cs) acc =
     (case digitValue c of None \<Rightarrow> None | Some d \<Rightarrow> parseDigits cs (10 * acc + d))"

definition inInt64 :: "int \<Rightarrow> bool" where
  "inInt64 i = (- (2 ^ 63) \<le> i \<and> i < 2 ^ 63)"

definition ParseInt64 :: "string \<Rightarrow> int option" where
  "ParseInt64 s =
     (case s of
        [] \<Rightarrow> None
      | c # cs \<Rightarrow>
          (let neg = (c = CHR ''-'');
               ds = (if c = CHR ''-'' \<or> c = CHR ''+'' then cs else s)
           in if ds = [] then None
              else
                (case parseDigits ds 0 of
                   None \<Rightarrow> None
                 | Some n \<Rightarrow>
                     (let i = (if neg then - int n else int n)
                      in if inInt64 i then Some i else None))))"


section \<open>Durations\<close>

text \<open>
  A \<^verbatim>\<open>time.Duration\<close> is a signed 64-bit count of nanoseconds. No operation of the adapter
  or of the client adds or multiplies durations, so they are integers here. Go's
  division of integers truncates toward zero, and its remainder has the sign of the
  dividend.
\<close>

definition Millisecond :: int where
  "Millisecond = 1000000"

definition Second :: int where
  "Second = 1000 * Millisecond"

definition Hour :: int where
  "Hour = 3600 * Second"

definition quo :: "int \<Rightarrow> int \<Rightarrow> int" where
  "quo a b = (if 0 \<le> a then a div b else - ((- a) div b))"

definition rem :: "int \<Rightarrow> int \<Rightarrow> int" where
  "rem a b = a - b * quo a b"


section \<open>The remote store\<close>

text \<open>
  The remote key-value store and its client (a Redis server reached through the go-redis
  client) are no part of the repository. The model gives the primitives the adapter
  uses the meaning they have there: get, set-with-expiry, increment, set-expiry and
  delete, submitted one by one or several as one batch, with "key not found" a
  distinguished outcome that is no error.

  A key holds a byte string and, when it expires, a remaining time to live, kept as a
  duration. The store is reachable or not; a call on an unreachable store, or one that
  exceeds the operation timeout, fails and changes nothing.
\<close>

record entry =
  val :: string
  expiry :: "int option"

record store =
  up :: bool
  entries :: "string \<rightharpoonup> entry"

datatype redis_error =
  ConnectionFailed
  | NotAnInteger
  | IncrementOverflow
  | InvalidExpireTime

text \<open>
  The commands as the server receives them. \<^verbatim>\<open>SET\<close> carries its expiry as \<^verbatim>\<open>PX\<close> with a
  number of milliseconds, as \<^verbatim>\<open>EX\<close> with a number of seconds, as \<^verbatim>\<open>KEEPTTL\<close> or not at all;
  \<^verbatim>\<open>EXPIRE\<close> carries a number of seconds.
\<close>

datatype set_expiry =
  PX_arg int
  | EX_arg int
  | KEEPTTL_arg
  | NoExpiry

datatype command =
  SET string string set_expiry
  | INCR string
  | EXPIRE string int
  | DEL string

text \<open>
  The client turns a duration into the argument of a command. \<^verbatim>\<open>formatMs\<close> and
  \<^verbatim>\<open>formatSec\<close> truncate to whole milliseconds and whole seconds and round a positive
  duration below one unit up to one unit. \<^verbatim>\<open>Set\<close> sends a positive duration as \<^verbatim>\<open>PX\<close> when it
  is below one second or no whole number of seconds (\<^verbatim>\<open>usePrecise\<close>) and as \<^verbatim>\<open>EX\<close>
  otherwise, the duration \<^verbatim>\<open>KeepTTL\<close> as \<^verbatim>\<open>KEEPTTL\<close>, and any other duration without expiry.
  \<^verbatim>\<open>Expire\<close> always sends whole seconds.
\<close>

definition usePrecise :: "int \<Rightarrow> bool" where
  "usePrecise dur = (dur < Second \<or> rem dur Second \<noteq> 0)"

definition formatMs :: "int \<Rightarrow> int" where
  "formatMs dur = (if dur > 0 \<and> dur < Millisecond then 1 else quo dur Millisecond)"

definition formatSec :: "int \<Rightarrow> int" where
  "formatSec dur = (if dur > 0 \<and> dur < Second then 1 else quo dur Second)"

definition KeepTTL :: int where
  "KeepTTL = - 1"

definition Pipeliner_Set :: "string \<Rightarrow> string \<Rightarrow> int \<Rightarrow> command" where
  "Pipeliner_Set k v expiration =
     SET k v
       (if expiration > 0
        then (if usePrecise expiration then PX_arg (formatMs expiration) else EX_arg (formatSec expiration))
        else if expiration = KeepTTL then KEEPTTL_arg
        else NoExpiry)"

definition Pipeliner_Incr :: "string \<Rightarrow> command" where
  "Pipeliner_Incr k = INCR k"

definition Pipeliner_Expire :: "string \<Rightarrow> int \<Rightarrow> command" where
  "Pipeliner_Expire k expiration = EXPIRE k (formatSec expiration)"

definition Pipeliner_Del :: "string \<Rightarrow> command" where
  "Pipeliner_Del k = DEL k"

text \<open>
  The server increments only a value in canonical decimal form (no plus sign, no
  leading zero, no minus zero) that lies within the signed 64-bit range.
\<close>

definition string2ll :: "string \<Rightarrow> int option" where
  "string2ll s =
     (case ParseInt64 s of
        None \<Rightarrow> None
      | Some i \<Rightarrow> if formatInt i = s then Some i else None)"

text \<open>
  One command on the keys of the store. \<^verbatim>\<open>SET\<close> stores the value with the expiry it
  carries, which must be positive; with \<^verbatim>\<open>KEEPTTL\<close> the key keeps the expiry it has.
  \<^verbatim>\<open>INCR\<close> creates a missing key as 1 and keeps the expiry of an existing one. \<^verbatim>\<open>EXPIRE\<close>
  leaves a missing key missing and deletes the key when the number of seconds is not
  positive.
\<close>

fun exec_command :: "command \<Rightarrow> (string \<rightharpoonup> entry) \<Rightarrow> redis_error option \<times> (string \<rightharpoonup> entry)" where
  "exec_command (SET k v (PX_arg n)) es =
     (if n \<le> 0 then (Some InvalidExpireTime, es)
      else (None, es(k \<mapsto> \<lparr>val = v, expiry = Some (n * Millisecond)\<rparr>)))"
| "exec_command (SET k v (EX_arg n)) es =
     (if n \<le> 0 then (Some InvalidExpireTime, es)
      else (None, es(k \<mapsto> \<lparr>val = v, expiry = Some (n * Second)\<rparr>)))"
| "exec_command (SET k v KEEPTTL_arg) es =
     (None, es(k \<mapsto> \<lparr>val = v, expiry = (case es k of None \<Rightarrow> None | Some e \<Rightarrow> expiry e)\<rparr>))"
| "exec_command (SET k v NoExpiry) es = (None, es(k \<mapsto> \<lparr>val = v, expiry = None\<rparr>))"
| "exec_command (INCR k) es =
     (case es k of
        None \<Rightarrow> (None, es(k \<mapsto> \<lparr>val = formatInt 1, expiry = None\<rparr>))
      | Some e \<Rightarrow>
          (case string2ll (val e) of
             None \<Rightarrow> (Some NotAnInteger, es)
           | Some i \<Rightarrow>
               if i = 2 ^ 63 - 1 then (Some IncrementOverflow, es)
               else (None, es(k \<mapsto> e\<lparr>val := formatInt (i + 1)\<rparr>))))"
| "exec_command (EXPIRE k n) es =
     (case es k of
        None \<Rightarrow> (None, es)
      | Some e \<Rightarrow>
          if n > 0 then (None, es(k \<mapsto> e\<lparr>expiry := Some (n * Second)\<rparr>))
          else (None, es(k := None)))"
| "exec_command (DEL k) es = (None, es(k := None))"

text \<open>
  A batch (\<^verbatim>\<open>Pipeline\<close> and \<^verbatim>\<open>Exec\<close>): the commands run in order, each on the keys its
  predecessors left, and \<^verbatim>\<open>Exec\<close> returns the error of the first command that failed.
\<close>

fun run_commands :: "command list \<Rightarrow> (string \<rightharpoonup> entry) \<Rightarrow> redis_error option \<times> (string \<rightharpoonup> entry)" where
  "run_commands [] es = (None, es)"
| "run_commands (c # cs) es =
     (case exec_command c es of
        (err, es') \<Rightarrow>
          (case run_commands cs es' of
             (err', es'') \<Rightarrow> ((case err of None \<Rightarrow> err' | Some e \<Rightarrow> Some e), es'')))"

definition Pipeline_Exec :: "command list \<Rightarrow> store \<Rightarrow> redis_error option \<times> store" where
  "Pipeline_Exec cs st =
     (if up st then (case run_commands cs (entries st) of (err, es) \<Rightarrow> (err, st\<lparr>entries := es\<rparr>))
      else (Some ConnectionFailed, st))"

text \<open>\<^verbatim>\<open>GET\<close>: the value of the key, \<open>None\<close> for \<^verbatim>\<open>redis.Nil\<close>.\<close>

definition Client_Get :: "store \<Rightarrow> string \<Rightarrow> redis_error + string option" where
  "Client_Get st k = (if up st then Inr (map_option val (entries st k)) else Inl ConnectionFailed)"

definition Client_Exists :: "store \<Rightarrow> string \<Rightarrow> redis_error + int" where
  "Client_Exists st k =
     (if up st then Inr (if entries st k = None then 0 else 1) else Inl ConnectionFailed)"


section \<open>The remote adapter\<close>

text \<open>
  \<^verbatim>\<open>RedisConfig\<close>. The field
  \<^verbatim>\<open>MaxValueBytes\<close> is read by \<^verbatim>\<open>Get\<close>; its declaration and its default are not in
  \<^verbatim>\<open>config.go\<close>, so the default is an argument of \<open>DefaultRedisConfig\<close>.
\<close>

record RedisConfig =
  KeyPrefix :: string
  VersionKeySuffix :: string
  TTL :: int
  OperationTimeout :: int
  MaxValueBytes :: int

definition DefaultRedisConfig :: "int \<Rightarrow> RedisConfig" where
  "DefaultRedisConfig maxValueBytes =
     \<lparr>KeyPrefix = ''cache:'', VersionKeySuffix = '':version'', TTL = 1 * Hour,
      OperationTimeout = 5 * Second, MaxValueBytes = maxValueBytes\<rparr>"

text \<open>
  \<^verbatim>\<open>RedisCache[V]\<close>. The client is a handle that may be nil; the store it talks to is passed
  to every operation and returned by those that write. The field \<^verbatim>\<open>config\<close> is named
  \<open>redisConfig\<close> here, apart from the field of the memory cache.
\<close>

datatype Client = Client

record RedisCache =
  client :: "Client option"
  redisConfig :: RedisConfig
  key :: string

definition maxRedisKeyLen :: nat where
  "maxRedisKeyLen = 512"

definition validateRedisKeys :: "string \<Rightarrow> string \<Rightarrow> panic option" where
  "validateRedisKeys dataKey versionKey =
     (if dataKey = [] then Some PanicDataKeyEmpty
      else if versionKey = [] \<or> versionKey = dataKey then Some PanicVersionKeyInvalid
      else if length dataKey > maxRedisKeyLen \<or> length versionKey > maxRedisKeyLen
        then Some PanicKeyTooLong
      else None)"

definition NewRedisCache :: "int \<Rightarrow> Client option \<Rightarrow> RedisConfig option \<Rightarrow> panic + RedisCache" where
  "NewRedisCache maxValueBytes cl cfg =
     (let config = (case cfg of None \<Rightarrow> DefaultRedisConfig maxValueBytes | Some c \<Rightarrow> c)
      in if KeyPrefix config = [] then Inl PanicKeyPrefixEmpty
         else if VersionKeySuffix config = [] then Inl PanicVersionKeySuffixEmpty
         else
           (let dataKey = KeyPrefix config @ ''data'';
                versionKey = dataKey @ VersionKeySuffix config
            in case validateRedisKeys dataKey versionKey of
                 Some p \<Rightarrow> Inl p
               | None \<Rightarrow> Inr \<lparr>client = cl, redisConfig = config, key = dataKey\<rparr>))"

definition NewRedisCacheWithKey ::
  "int \<Rightarrow> Client option \<Rightarrow> string \<Rightarrow> RedisConfig option \<Rightarrow> panic + RedisCache"
where
  "NewRedisCacheWithKey maxValueBytes cl k cfg =
     (let config = (case cfg of None \<Rightarrow> DefaultRedisConfig maxValueBytes | Some c \<Rightarrow> c)
      in if k = [] then Inl PanicKeyEmpty
         else if VersionKeySuffix config = [] then Inl PanicVersionKeySuffixEmpty
         else
           (case validateRedisKeys k (k @ VersionKeySuffix config) of
              Some p \<Rightarrow> Inl p
            | None \<Rightarrow> Inr \<lparr>client = cl, redisConfig = config, key = k\<rparr>))"

definition versionKey :: "RedisCache \<Rightarrow> string" where
  "versionKey c = key c @ VersionKeySuffix (redisConfig c)"

definition effectiveTTL :: "RedisCache \<Rightarrow> int \<Rightarrow> int" where
  "effectiveTTL c ttl =
     (if ttl > 0 then ttl
      else if TTL (redisConfig c) > 0 then TTL (redisConfig c)
      else 1 * Hour)"

text \<open>
  The encoding of a dataset (\<^verbatim>\<open>json.Marshal\<close> and \<^verbatim>\<open>json.Unmarshal\<close> at the value type) is a
  parameter: both may fail.
\<close>

record 'v codec =
  Marshal :: "'v list \<Rightarrow> string option"
  Unmarshal :: "string \<Rightarrow> 'v list option"

text \<open>The errors the adapter returns.\<close>

datatype error =
  ErrClientNil
  | ErrMarshal
  | ErrSetCache redis_error
  | ErrGetCache redis_error
  | ErrValueTooLarge nat int
  | ErrUnmarshal
  | ErrCheckExistence redis_error
  | ErrGetVersion redis_error
  | ErrGetVersionParse
  | ErrRedis redis_error

definition RedisCache_Set ::
  "('v, 'x) codec_scheme \<Rightarrow> RedisCache \<Rightarrow> 'v list \<Rightarrow> store \<Rightarrow> error option \<times> store"
where
  "RedisCache_Set j c values st =
     (if client c = None then (Some ErrClientNil, st)
      else
        (case Marshal j values of
           None \<Rightarrow> (Some ErrMarshal, st)
         | Some blob \<Rightarrow>
             (let ttl = effectiveTTL c (TTL (redisConfig c))
              in case Pipeline_Exec
                        [Pipeliner_Set (key c) blob ttl, Pipeliner_Incr (versionKey c),
                         Pipeliner_Expire (versionKey c) ttl] st of
                   (Some e, st') \<Rightarrow> (Some (ErrSetCache e), st')
                 | (None, st') \<Rightarrow> (None, st'))))"

definition RedisCache_Get ::
  "('v, 'x) codec_scheme \<Rightarrow> RedisCache \<Rightarrow> store \<Rightarrow> error + 'v list"
where
  "RedisCache_Get j c st =
     (if client c = None then Inl ErrClientNil
      else
        (case Client_Get st (key c) of
           Inr None \<Rightarrow> Inr []
         | Inl e \<Rightarrow> Inl (ErrGetCache e)
         | Inr (Some blob) \<Rightarrow>
             (let maxBytes = MaxValueBytes (redisConfig c)
              in if maxBytes > 0 \<and> int (length blob) > maxBytes
                 then Inl (ErrValueTooLarge (length blob) maxBytes)
                 else
                   (case Unmarshal j blob of
                      None \<Rightarrow> Inl ErrUnmarshal
                    | Some values \<Rightarrow> Inr values))))"

definition RedisCache_Exists :: "RedisCache \<Rightarrow> store \<Rightarrow> error + bool" where
  "RedisCache_Exists c st =
     (if client c = None then Inl ErrClientNil
      else
        (case Client_Exists st (key c) of
           Inl e \<Rightarrow> Inl (ErrCheckExistence e)
         | Inr count \<Rightarrow> Inr (count > 0)))"

definition RedisCache_GetVersion :: "RedisCache \<Rightarrow> store \<Rightarrow> error + int" where
  "RedisCache_GetVersion c st =
     (if client c = None then Inl ErrClientNil
      else
        (case Client_Get st (versionKey c) of
           Inr None \<Rightarrow> Inr 0
         | Inl e \<Rightarrow> Inl (ErrGetVersion e)
         | Inr (Some s) \<Rightarrow>
             (case ParseInt64 s of
                None \<Rightarrow> Inl ErrGetVersionParse
              | Some version \<Rightarrow> Inr version)))"

definition RedisCache_Clear :: "RedisCache \<Rightarrow> store \<Rightarrow> error option \<times> store" where
  "RedisCache_Clear c st =
     (if client c = None then (Some ErrClientNil, st)
      else
        (case Pipeline_Exec [Pipeliner_Del (key c), Pipeliner_Del (versionKey c)] st of
           (err, st') \<Rightarrow> (map_option ErrRedis err, st')))"

definition RedisCache_SetWithTTL ::
  "('v, 'x) codec_scheme \<Rightarrow> RedisCache \<Rightarrow> 'v list \<Rightarrow> int \<Rightarrow> store \<Rightarrow> error option \<times> store"
where
  "RedisCache_SetWithTTL j c values ttl st =
     (if client c = None then (Some ErrClientNil, st)
      else
        (case Marshal j values of
           None \<Rightarrow> (Some ErrMarshal, st)
         | Some blob \<Rightarrow>
             (let effective = effectiveTTL c ttl
              in case Pipeline_Exec
                        [Pipeliner_Set (key c) blob effective, Pipeliner_Incr (versionKey c),
                         Pipeliner_Expire (versionKey c) effective] st of
                   (Some e, st') \<Rightarrow> (Some (ErrSetCache e), st')
                 | (None, st') \<Rightarrow> (None, st'))))"

definition RedisCache_Refresh :: "RedisCache \<Rightarrow> store \<Rightarrow> error option \<times> store" where
  "RedisCache_Refresh c st =
     (if client c = None then (Some ErrClientNil, st)
      else
        (let ttl = effectiveTTL c (TTL (redisConfig c))
         in case Pipeline_Exec
                   [Pipeliner_Expire (key c) ttl, Pipeliner_Expire (versionKey c) ttl] st of
              (err, st') \<Rightarrow> (map_option ErrRedis err, st')))"


section \<open>The expiry a write leaves\<close>

text \<open>
  What becomes of a positive duration on its way to a key. On the data key, a whole
  number of seconds is kept, and any other duration is cut down to whole milliseconds,
  but not below one. On the version key every duration is cut down to whole seconds,
  but not below one.
\<close>

definition dataExpiry :: "int \<Rightarrow> int" where
  "dataExpiry d = (if d mod Second = 0 then d else max 1 (d div Millisecond) * Millisecond)"

definition versionExpiry :: "int \<Rightarrow> int" where
  "versionExpiry d = max 1 (d div Second) * Second"


section \<open>The hybrid cache\<close>

record 'v HybridCache =
  memory :: "'v MemoryCache"
  redis :: RedisCache

definition NewHybridCache ::
  "('v, 'x) runtime_scheme \<Rightarrow> int \<Rightarrow> 'v Config option \<Rightarrow> Client option \<Rightarrow> RedisConfig option
     \<Rightarrow> panic + 'v HybridCache"
where
  "NewHybridCache rt maxValueBytes memoryConfig redisClient cfg =
     (case NewRedisCache maxValueBytes redisClient cfg of
        Inl p \<Rightarrow> Inl p
      | Inr r \<Rightarrow> Inr \<lparr>memory = NewMultiIndexCache rt memoryConfig, redis = r\<rparr>)"

definition HybridCache_AddIndex ::
  "('v, 'x) runtime_scheme \<Rightarrow> string list \<Rightarrow> string \<Rightarrow> ('v \<Rightarrow> string) \<Rightarrow> 'v HybridCache \<Rightarrow> 'v HybridCache"
where
  "HybridCache_AddIndex rt visit name keyFunc h =
     h\<lparr>memory := MemoryCache_AddIndex rt visit name keyFunc (memory h)\<rparr>"

text \<open>
  \<^verbatim>\<open>HybridCache.Set\<close>: the memory cache first, then the remote store, whose error is the
  result. A panic of the memory cache ends the call before the remote store is touched.
\<close>

definition HybridCache_Set ::
  "('v, 'x) runtime_scheme \<Rightarrow> ('v, 'y) codec_scheme \<Rightarrow> 'v HybridCache \<Rightarrow> 'v list \<Rightarrow> store
     \<Rightarrow> panic + ('v HybridCache \<times> error option \<times> store)"
where
  "HybridCache_Set rt j h values st =
     (case MemoryCache_Set rt (memory h) values of
        Inl p \<Rightarrow> Inl p
      | Inr m \<Rightarrow> Inr (h\<lparr>memory := m\<rparr>, RedisCache_Set j (redis h) values st))"

definition HybridCache_GetByIndex ::
  "('v, 'x) runtime_scheme \<Rightarrow> 'v HybridCache \<Rightarrow> string \<Rightarrow> string \<Rightarrow> 'v option" where
  "HybridCache_GetByIndex rt h indexName k = MemoryCache_GetByIndex rt (memory h) indexName k"

definition HybridCache_GetAll :: "'v HybridCache \<Rightarrow> 'v list" where
  "HybridCache_GetAll h = MemoryCache_GetAll (memory h)"

text \<open>
  Test data for the remote adapter: a reachable store with no key, a stand-in for the
  JSON encoding that knows the identifiers of the values only, and the one-element
  dataset of the tests.
\<close>

definition emptyStore :: store where
  "emptyStore = \<lparr>up = True, entries = Map.empty\<rparr>"

definition testCodec :: "TestUser codec" where
  "testCodec =
     \<lparr>Marshal = (\<lambda>vs. Some (concat (map (\<lambda>u. ID u @ '';'') vs))),
      Unmarshal = (\<lambda>s. if s = [] then Some []
                        else if s = ''1;'' then Some [testUser ''1'' [] []]
                        else None)\<rparr>"

definition oneUser :: "TestUser list" where
  "oneUser = [testUser ''1'' [] []]"

text \<open>The setters of the remote configuration that the test data use.\<close>

definition WithTTL :: "int \<Rightarrow> RedisConfig \<Rightarrow> RedisConfig" where
  "WithTTL ttl c = c\<lparr>TTL := ttl\<rparr>"

definition WithMaxValueBytes :: "int \<Rightarrow> RedisConfig \<Rightarrow> RedisConfig" where
  "WithMaxValueBytes n c = c\<lparr>MaxValueBytes := n\<rparr>"

text \<open>A reachable store whose key \<^verbatim>\<open>cache:data\<close> holds a given blob.\<close>

definition blobStore :: "string \<Rightarrow> store" where
  "blobStore blob = \<lparr>up = True, entries = [''cache:data'' \<mapsto> \<lparr>val = blob, expiry = Some Hour\<rparr>]\<rparr>"

text \<open>
  The adapter that \<^verbatim>\<open>NewRedisCache\<close> builds from a client and the default configuration,
  the hybrid caches that \<^verbatim>\<open>NewHybridCache\<close> builds without a client (as the tests of a
  failing remote store do) over the two test configurations, and an input of three
  values with different primary keys.
\<close>

definition testAdapter :: RedisCache where
  "testAdapter = \<lparr>client = Some Client, redisConfig = DefaultRedisConfig 0, key = ''cache:data''\<rparr>"

definition failingHybrid :: "TestUser HybridCache" where
  "failingHybrid =
     \<lparr>memory = keyedCache,
      redis = \<lparr>client = None, redisConfig = DefaultRedisConfig 0, key = ''cache:data''\<rparr>\<rparr>"

definition pipelineHybrid :: "TestUser HybridCache" where
  "pipelineHybrid =
     HybridCache_AddIndex testRuntime [] ''email'' Email
       \<lparr>memory = NewMultiIndexCache testRuntime (Some pipelineConfig),
        redis = \<lparr>client = None, redisConfig = DefaultRedisConfig 0, key = ''cache:data''\<rparr>\<rparr>"

definition orderInput :: "TestUser list" where
  "orderInput =
     [testUser ''3'' [] ''Third'', testUser ''1'' [] ''First'', testUser ''2'' [] ''Second'']"

section \<open>Index-key normalisation on ASCII strings\<close>

lemma asciiLowerChar_idem: "asciiLowerChar (asciiLowerChar c) = asciiLowerChar c"
  by (simp add: asciiLowerChar_def Let_def)

lemma asciiSpace_asciiLowerChar: "asciiSpace (asciiLowerChar c) = asciiSpace c"
  by (simp add: asciiLowerChar_def asciiSpace_def Let_def)

lemma dropWhile_map_asciiLowerChar:
  "dropWhile asciiSpace (map asciiLowerChar s) = map asciiLowerChar (dropWhile asciiSpace s)"
  by (induction s) (simp_all add: asciiSpace_asciiLowerChar)

lemma asciiTrimSpace_asciiToLower: "asciiTrimSpace (asciiToLower s) = asciiToLower (asciiTrimSpace s)"
proof -
  have "asciiTrimSpace (map asciiLowerChar s) = rev (dropWhile asciiSpace (rev (map asciiLowerChar (dropWhile asciiSpace s))))"
    by (simp only: asciiTrimSpace_def dropWhile_map_asciiLowerChar)
  also have "\<dots> = rev (dropWhile asciiSpace (map asciiLowerChar (rev (dropWhile asciiSpace s))))"
    by (simp only: rev_map)
  also have "\<dots> = rev (map asciiLowerChar (dropWhile asciiSpace (rev (dropWhile asciiSpace s))))"
    by (simp only: dropWhile_map_asciiLowerChar)
  also have "\<dots> = map asciiLowerChar (asciiTrimSpace s)"
    by (simp only: rev_map asciiTrimSpace_def)
  finally show ?thesis by (simp only: asciiToLower_def)
qed

lemma dropWhile_no_lead: "xs = [] \<or> \<not> P (hd xs) \<Longrightarrow> dropWhile P xs = xs"
  by (cases xs) auto

lemma lead_dropWhile: "dropWhile P xs = [] \<or> \<not> P (hd (dropWhile P xs))"
  using hd_dropWhile by blast

lemma trimRight_prefix: "ys = rev (dropWhile P (rev ys)) @ rev (takeWhile P (rev ys))"
  by (metis rev_append rev_rev_ident takeWhile_dropWhile_id)

lemma trimRight_lead:
  assumes "ys = [] \<or> \<not> P (hd ys)"
  shows "rev (dropWhile P (rev ys)) = [] \<or> \<not> P (hd (rev (dropWhile P (rev ys))))"
proof (cases "rev (dropWhile P (rev ys)) = []")
  case True
  then show ?thesis by simp
next
  case False
  have "hd ys = hd (rev (dropWhile P (rev ys)) @ rev (takeWhile P (rev ys)))"
    using trimRight_prefix [of ys P] by simp
  with False have "hd ys = hd (rev (dropWhile P (rev ys)))" by simp
  moreover from False have "ys \<noteq> []" by auto
  ultimately show ?thesis using assms by simp
qed

lemma asciiTrimSpace_idem: "asciiTrimSpace (asciiTrimSpace s) = asciiTrimSpace s"
proof -
  let ?T = "rev (dropWhile asciiSpace (rev (dropWhile asciiSpace s)))"
  have "?T = [] \<or> \<not> asciiSpace (hd ?T)"
    by (rule trimRight_lead) (rule lead_dropWhile)
  then have "dropWhile asciiSpace ?T = ?T" by (rule dropWhile_no_lead)
  then show ?thesis by (simp add: asciiTrimSpace_def)
qed

lemma asciiToLower_idem: "asciiToLower (asciiToLower s) = asciiToLower s"
  by (simp add: asciiToLower_def asciiLowerChar_idem)

text \<open>The test runtime obeys the three facts about lower-casing and trimming.\<close>

lemma testRuntime_laws: "normalisation_laws testRuntime"
  by (simp add: normalisation_laws_def testRuntime_def asciiToLower_idem asciiTrimSpace_idem
      asciiTrimSpace_asciiToLower)

lemma normalizeKey_idem:
  assumes "normalisation_laws rt"
  shows "normalizeKey rt (normalizeKey rt k) = normalizeKey rt k"
proof -
  from assms have lower: "ToLower rt (ToLower rt s) = ToLower rt s"
    and trim: "TrimSpace rt (TrimSpace rt s) = TrimSpace rt s"
    and comm: "TrimSpace rt (ToLower rt s) = ToLower rt (TrimSpace rt s)" for s
    by (simp_all add: normalisation_laws_def)
  have "normalizeKey rt (normalizeKey rt k) =
        ToLower rt (TrimSpace rt (ToLower rt (TrimSpace rt k)))"
    by (simp only: normalizeKey_def)
  also have "\<dots> = ToLower rt (ToLower rt (TrimSpace rt (TrimSpace rt k)))"
    by (simp only: comm)
  also have "\<dots> = ToLower rt (TrimSpace rt k)"
    by (simp only: lower trim)
  finally show ?thesis by (simp only: normalizeKey_def)
qed


section \<open>The loop of Set\<close>

lemma set_first_occurrences: "set (first_occurrences xs) = set xs"
  by (induction xs) auto

lemma distinct_first_occurrences: "distinct (first_occurrences xs)"
  by (induction xs) (auto simp: set_first_occurrences distinct_removeAll)

lemma filter_removeAll_insert:
  "filter (\<lambda>x. x \<notin> S) (removeAll k xs) = filter (\<lambda>x. x \<notin> insert k S) xs"
  by (induction xs) auto

lemma no_nilIndexWrite: "dom fns \<subseteq> dom idxs \<Longrightarrow> \<not> nilIndexWrite fns idxs v"
  by (auto simp: nilIndexWrite_def)

lemma dom_updateIndexes: "dom (updateIndexes rt fns v pk idxs) = dom idxs"
  by (auto simp: updateIndexes_def Let_def split: option.splits if_splits)

lemma accepted_Cons:
  "accepted cfg (v0 # vs) =
     (if \<not> validateFails cfg (normalizeValue cfg v0) \<and> primaryKey cfg (normalizeValue cfg v0) \<noteq> []
      then normalizeValue cfg v0 # accepted cfg vs else accepted cfg vs)"
  by (simp add: accepted_def passValidation_def)

lemma accepted_Nil: "accepted cfg [] = []"
  by (simp add: accepted_def passValidation_def)

lemma setLoop_result:
  assumes "dom fns \<subseteq> dom idxs"
  shows "\<exists>idxs'. setLoop rt cfg fns vs (d, ord, idxs) =
           Inr (d ++ map_of (rev (keyed cfg (accepted cfg vs))),
                ord @ filter (\<lambda>k. k \<notin> dom d) (first_occurrences (map (primaryKey cfg) (accepted cfg vs))),
                idxs')
         \<and> dom idxs' = dom idxs"
  using assms
proof (induction vs arbitrary: d ord idxs)
  case Nil
  then show ?case by (simp add: accepted_Nil keyed_def)
next
  case (Cons v0 vs)
  let ?v = "normalizeValue cfg v0"
  let ?k = "primaryKey cfg ?v"
  show ?case
  proof (cases "\<not> validateFails cfg ?v \<and> ?k \<noteq> []")
    case False
    then have "accepted cfg (v0 # vs) = accepted cfg vs" by (simp add: accepted_Cons)
    moreover from False have "setLoop rt cfg fns (v0 # vs) (d, ord, idxs) = setLoop rt cfg fns vs (d, ord, idxs)"
      by (auto simp: Let_def)
    ultimately show ?thesis using Cons.IH [OF Cons.prems] by simp
  next
    case True
    then have acc: "accepted cfg (v0 # vs) = ?v # accepted cfg vs" by (simp add: accepted_Cons)
    let ?d = "d(?k \<mapsto> ?v)"
    let ?ord = "if d ?k = None then ord @ [?k] else ord"
    let ?idxs = "updateIndexes rt fns ?v ?k idxs"
    have step: "setLoop rt cfg fns (v0 # vs) (d, ord, idxs) = setLoop rt cfg fns vs (?d, ?ord, ?idxs)"
      using True no_nilIndexWrite [OF Cons.prems] by (simp add: Let_def)
    have "dom fns \<subseteq> dom ?idxs" using Cons.prems by (simp add: dom_updateIndexes)
    from Cons.IH [OF this, of ?d ?ord] obtain idxs' where
      res: "setLoop rt cfg fns vs (?d, ?ord, ?idxs) =
            Inr (?d ++ map_of (rev (keyed cfg (accepted cfg vs))),
                 ?ord @ filter (\<lambda>k. k \<notin> dom ?d) (first_occurrences (map (primaryKey cfg) (accepted cfg vs))),
                 idxs')"
      and dom': "dom idxs' = dom ?idxs" by blast
    have data_eq: "?d ++ map_of (rev (keyed cfg (accepted cfg vs))) =
                   d ++ map_of (rev (keyed cfg (accepted cfg (v0 # vs))))"
      by (simp add: acc keyed_def)
    have ord_eq: "?ord @ filter (\<lambda>k. k \<notin> dom ?d) (first_occurrences (map (primaryKey cfg) (accepted cfg vs))) =
                  ord @ filter (\<lambda>k. k \<notin> dom d) (first_occurrences (map (primaryKey cfg) (accepted cfg (v0 # vs))))"
      by (auto simp: acc filter_removeAll_insert)
    show ?thesis
      using step res dom' data_eq ord_eq by (simp add: dom_updateIndexes)
  qed
qed

lemma lastWithKey_Cons:
  "lastWithKey pk (x # xs) k =
     (case lastWithKey pk xs k of Some w \<Rightarrow> Some w | None \<Rightarrow> if pk x = k then Some x else None)"
  by (auto simp: lastWithKey_def split: list.splits)

lemma map_of_rev_keyed:
  "map_of (rev (keyed cfg ws)) k = lastWithKey (primaryKey cfg) ws k"
proof (induction ws)
  case Nil
  then show ?case by (simp add: keyed_def lastWithKey_def)
next
  case (Cons x xs)
  have "map_of (rev (keyed cfg (x # xs))) k =
        (map_of [(primaryKey cfg x, x)] ++ map_of (rev (keyed cfg xs))) k"
    by (simp add: keyed_def)
  also have "\<dots> = (case lastWithKey (primaryKey cfg) xs k of
                       Some w \<Rightarrow> Some w
                     | None \<Rightarrow> if primaryKey cfg x = k then Some x else None)"
    using Cons.IH by (auto simp: map_add_def split: option.splits)
  finally show ?case by (simp add: lastWithKey_Cons)
qed

lemma dom_map_of_rev_keyed: "dom (map_of (rev (keyed cfg ws))) = primaryKey cfg ` set ws"
  by (simp add: dom_map_of_conv_image_fst keyed_def image_image)

lemma lastWithKey_None_iff: "lastWithKey pk ws k = None \<longleftrightarrow> k \<notin> pk ` set ws"
proof -
  have "lastWithKey pk ws k = None \<longleftrightarrow> filter (\<lambda>v. pk v = k) ws = []"
    by (simp add: lastWithKey_def split: list.splits)
  also have "\<dots> \<longleftrightarrow> k \<notin> pk ` set ws"
    by (auto simp: filter_empty_conv)
  finally show ?thesis .
qed

lemma map_filter_all_Some:
  "\<forall>x \<in> set xs. f x \<noteq> None \<Longrightarrow> List.map_filter f xs = map (\<lambda>x. the (f x)) xs"
  by (induction xs) (auto simp: List.map_filter_simps)

lemma set_accepted: "set (accepted cfg vs) = {v \<in> set (passValidation cfg vs). primaryKey cfg v \<noteq> []}"
  by (auto simp: accepted_def)

lemma keys_accepted:
  "primaryKey cfg ` set (accepted cfg vs) = primaryKey cfg ` set (passValidation cfg vs) - {[]}"
  by (auto simp: set_accepted)

lemma primaryKey_Some: "PrimaryKeyFunc cfg = Some pkf \<Longrightarrow> primaryKey cfg = pkf"
  by (auto simp: primaryKey_def fun_eq_iff)

text \<open>What \<^verbatim>\<open>Set\<close> leaves in \<^verbatim>\<open>c.data\<close> and \<^verbatim>\<open>c.order\<close>.\<close>

lemma Set_result:
  assumes "vs = [] \<or> PrimaryKeyFunc (config c) \<noteq> None" and "indexes_registered c"
  shows "\<exists>c'. MemoryCache_Set rt c vs = Inr c'
     \<and> data c' = map_of (rev (keyed (config c) (accepted (config c) vs)))
     \<and> order c' = first_occurrences (map (primaryKey (config c)) (accepted (config c) vs))
     \<and> config c' = config c \<and> indexFns c' = indexFns c \<and> dom (indexes c') = dom (indexes c)"
proof -
  have dom_clear: "dom (clearIndexes (indexes c)) = dom (indexes c)"
    by (auto simp: clearIndexes_def split: option.splits)
  have "dom (indexFns c) \<subseteq> dom (clearIndexes (indexes c))"
    using assms(2) by (simp add: dom_clear indexes_registered_def)
  from setLoop_result [OF this, of rt "config c" vs "Map.empty" "[]"] obtain idxs' where
    "setLoop rt (config c) (indexFns c) vs (Map.empty, [], clearIndexes (indexes c)) =
       Inr (map_of (rev (keyed (config c) (accepted (config c) vs))),
            first_occurrences (map (primaryKey (config c)) (accepted (config c) vs)), idxs')"
    and "dom idxs' = dom (clearIndexes (indexes c))"
    by auto
  then show ?thesis
    using assms(1) dom_clear by (auto simp: MemoryCache_Set_def Let_def)
qed


section \<open>Bulk load: key uniqueness and order stability\<close>

lemmas test_defs = requireEmail_def markNormalized_def testConfig_def pipelineConfig_def
  testUser_def pipelineCache_def pipelineInput_def DefaultConfig_def WithPrimaryKey_def
  WithValidateFunc_def WithNormalizeFunc_def NewMultiIndexCache_def MemoryCache_AddIndex_def

lemma Set_GetAll:
  assumes "PrimaryKeyFunc (config c) = Some pkf" and "indexes_registered c"
  shows "\<exists>c'. MemoryCache_Set rt c vs = Inr c'
     \<and> data c' = map_of (rev (keyed (config c) (accepted (config c) vs)))
     \<and> MemoryCache_GetAll c' =
         map (\<lambda>k. the (lastWithKey pkf (accepted (config c) vs) k))
           (first_occurrences (map pkf (accepted (config c) vs)))"
proof -
  let ?acc = "accepted (config c) vs"
  have pk: "primaryKey (config c) = pkf" using assms(1) by (rule primaryKey_Some)
  from assms have "vs = [] \<or> PrimaryKeyFunc (config c) \<noteq> None" by simp
  from Set_result [OF this assms(2), of rt] obtain c' where
    set: "MemoryCache_Set rt c vs = Inr c'"
    and d: "data c' = map_of (rev (keyed (config c) ?acc))"
    and ord: "order c' = first_occurrences (map pkf ?acc)"
    by (auto simp: pk)
  have "\<forall>k \<in> set (order c'). data c' k \<noteq> None"
    using map_of_rev_keyed [of "config c" ?acc]
    by (simp add: ord d set_first_occurrences lastWithKey_None_iff pk)
  then have "MemoryCache_GetAll c' = map (\<lambda>k. the (data c' k)) (order c')"
    unfolding MemoryCache_GetAll_def by (rule map_filter_all_Some)
  also have "\<dots> = map (\<lambda>k. the (lastWithKey pkf ?acc k)) (first_occurrences (map pkf ?acc))"
    using map_of_rev_keyed [of "config c" ?acc] by (simp add: ord d pk)
  finally show ?thesis using set d by blast
qed

text \<open>
  Claim C1. Let the cache have a primary-key extractor \<open>pkf\<close> (and hold the same names in
  both index registries, as every cache built by the constructor does). Then for every
  input \<open>vs\<close>, \<^verbatim>\<open>Set(vs)\<close> returns, and afterwards: \<^verbatim>\<open>Len()\<close> is the number of distinct
  non-empty primary keys among the values of \<open>vs\<close> that pass validation after
  normalisation; \<^verbatim>\<open>Get(k)\<close> is the last accepted value whose key is \<open>k\<close> (not found when
  there is none); \<^verbatim>\<open>GetAll()\<close> lists, for each primary key in the order of its first
  appearance among the accepted values, that last value.
\<close>

theorem Set_key_uniqueness_and_order:
  assumes "PrimaryKeyFunc (config c) = Some pkf" and "indexes_registered c"
  shows "\<exists>c'. MemoryCache_Set rt c vs = Inr c'
     \<and> MemoryCache_Len c' = card (pkf ` set (passValidation (config c) vs) - {[]})
     \<and> (\<forall>k. MemoryCache_Get c' k = lastWithKey pkf (accepted (config c) vs) k)
     \<and> MemoryCache_GetAll c' =
         map (\<lambda>k. the (lastWithKey pkf (accepted (config c) vs) k))
           (first_occurrences (map pkf (accepted (config c) vs)))"
proof -
  let ?acc = "accepted (config c) vs"
  have pk: "primaryKey (config c) = pkf" using assms(1) by (rule primaryKey_Some)
  from Set_GetAll [OF assms, of rt vs] obtain c' where
    set: "MemoryCache_Set rt c vs = Inr c'"
    and d: "data c' = map_of (rev (keyed (config c) ?acc))"
    and all: "MemoryCache_GetAll c' =
         map (\<lambda>k. the (lastWithKey pkf ?acc k)) (first_occurrences (map pkf ?acc))"
    by blast
  have "dom (data c') = pkf ` set ?acc"
    by (simp add: d dom_map_of_rev_keyed pk)
  also have "\<dots> = pkf ` set (passValidation (config c) vs) - {[]}"
    using keys_accepted [of "config c" vs] by (simp add: pk)
  finally have len: "MemoryCache_Len c' = card (pkf ` set (passValidation (config c) vs) - {[]})"
    by (simp add: MemoryCache_Len_def)
  have get: "MemoryCache_Get c' k = lastWithKey pkf ?acc k" for k
    using map_of_rev_keyed [of "config c" ?acc k] by (simp add: MemoryCache_Get_def d pk)
  from set len get all show ?thesis by blast
qed

theorem Set_key_uniqueness_and_order_witness:
  "PrimaryKeyFunc (config pipelineCache) = Some ID \<and> indexes_registered pipelineCache \<and>
   (\<exists>c'. MemoryCache_Set testRuntime pipelineCache pipelineInput = Inr c'
      \<and> MemoryCache_Len c' = 3
      \<and> MemoryCache_Get c' ''1'' = Some (testUser ''1'' ''second@example.com'' ''Normalized: Second'')
      \<and> MemoryCache_GetAll c' =
          [testUser ''3'' ''c@example.com'' ''Normalized: Third'',
           testUser ''1'' ''second@example.com'' ''Normalized: Second'',
           testUser ''2'' ''b@example.com'' ''Normalized: Two''])"
proof -
  have cfg: "config pipelineCache = pipelineConfig"
    by (simp add: pipelineCache_def NewMultiIndexCache_def MemoryCache_AddIndex_def)
  have h1: "PrimaryKeyFunc (config pipelineCache) = Some ID"
    by (simp add: cfg pipelineConfig_def testConfig_def WithNormalizeFunc_def WithValidateFunc_def
        WithPrimaryKey_def)
  have h2: "indexes_registered pipelineCache"
    by (simp add: pipelineCache_def NewMultiIndexCache_def MemoryCache_AddIndex_def
        indexes_registered_def)
  have e1: "card (ID ` set (passValidation pipelineConfig pipelineInput) - {[]}) = 3"
    by code_simp
  have e2: "lastWithKey ID (accepted pipelineConfig pipelineInput) ''1'' =
              Some (testUser ''1'' ''second@example.com'' ''Normalized: Second'')"
    by code_simp
  have e3: "map (\<lambda>k. the (lastWithKey ID (accepted pipelineConfig pipelineInput) k))
              (first_occurrences (map ID (accepted pipelineConfig pipelineInput))) =
            [testUser ''3'' ''c@example.com'' ''Normalized: Third'',
             testUser ''1'' ''second@example.com'' ''Normalized: Second'',
             testUser ''2'' ''b@example.com'' ''Normalized: Two'']"
    by code_simp
  from Set_key_uniqueness_and_order [OF h1 h2, of testRuntime pipelineInput]
  show ?thesis using h1 h2 e1 e2 e3 by (auto simp: cfg)
qed


section \<open>Index lookups normalise the key\<close>

text \<open>
  Claim C5. For every cache, every index name and every pair of lookup strings, whatever
  the library functions do on them: two keys that are equal after trimming and
  lower-casing give the same result of \<^verbatim>\<open>GetByIndex\<close>. And, since lower-casing and trimming
  are idempotent and commute, a key gives the same result as its normalised form.
\<close>

theorem GetByIndex_key_normalization:
  "(ToLower rt (TrimSpace rt k1) = ToLower rt (TrimSpace rt k2) \<longrightarrow>
      MemoryCache_GetByIndex rt c name k1 = MemoryCache_GetByIndex rt c name k2)
   \<and> (normalisation_laws rt \<longrightarrow>
        MemoryCache_GetByIndex rt c name k =
        MemoryCache_GetByIndex rt c name (ToLower rt (TrimSpace rt k)))"
proof (intro conjI impI)
  assume "ToLower rt (TrimSpace rt k1) = ToLower rt (TrimSpace rt k2)"
  then have "normalizeKey rt k1 = normalizeKey rt k2" by (simp add: normalizeKey_def)
  then show "MemoryCache_GetByIndex rt c name k1 = MemoryCache_GetByIndex rt c name k2"
    by (simp only: MemoryCache_GetByIndex_def)
next
  assume "normalisation_laws rt"
  then have "normalizeKey rt (ToLower rt (TrimSpace rt k)) = normalizeKey rt k"
    using normalizeKey_idem [of rt k] by (simp only: normalizeKey_def)
  then show "MemoryCache_GetByIndex rt c name k =
      MemoryCache_GetByIndex rt c name (ToLower rt (TrimSpace rt k))"
    by (simp only: MemoryCache_GetByIndex_def)
qed

theorem GetByIndex_key_normalization_witness:
  "ToLower testRuntime (TrimSpace testRuntime ''  B@Example.COM '') =
     ToLower testRuntime (TrimSpace testRuntime ''b@example.com'')
   \<and> normalisation_laws testRuntime
   \<and> ToLower testRuntime (TrimSpace testRuntime ''  B@Example.COM '') = ''b@example.com''
   \<and> (\<exists>c'. MemoryCache_Set testRuntime pipelineCache pipelineInput = Inr c'
      \<and> MemoryCache_GetByIndex testRuntime c' ''email'' ''  B@Example.COM '' =
          Some (testUser ''2'' ''b@example.com'' ''Normalized: Two'')
      \<and> MemoryCache_GetByIndex testRuntime c' ''email'' ''b@example.com'' =
          Some (testUser ''2'' ''b@example.com'' ''Normalized: Two'')
      \<and> MemoryCache_GetByIndex testRuntime c' ''email''
            (ToLower testRuntime (TrimSpace testRuntime ''  B@Example.COM '')) =
          MemoryCache_GetByIndex testRuntime c' ''email'' ''  B@Example.COM '')"
proof -
  have nk: "normalizeKey testRuntime ''c@example.com'' = ''c@example.com''"
    "normalizeKey testRuntime ''first@example.com'' = ''first@example.com''"
    "normalizeKey testRuntime ''second@example.com'' = ''second@example.com''"
    "normalizeKey testRuntime ''b@example.com'' = ''b@example.com''"
    by code_simp+
  have low: "ToLower testRuntime (TrimSpace testRuntime ''  B@Example.COM '') = ''b@example.com''"
    by code_simp
  have eq: "ToLower testRuntime (TrimSpace testRuntime ''  B@Example.COM '') =
     ToLower testRuntime (TrimSpace testRuntime ''b@example.com'')"
    by code_simp
  have "\<exists>c'. MemoryCache_Set testRuntime pipelineCache pipelineInput = Inr c'
      \<and> MemoryCache_GetByIndex testRuntime c' ''email'' ''b@example.com'' =
          Some (testUser ''2'' ''b@example.com'' ''Normalized: Two'')"
    by (simp add: MemoryCache_Set_def test_defs Let_def normalizeValue_def validateFails_def
        primaryKey_def nilIndexWrite_def updateIndexes_def clearIndexes_def
        MemoryCache_GetByIndex_def nk)
  then obtain c' where set: "MemoryCache_Set testRuntime pipelineCache pipelineInput = Inr c'"
    and get: "MemoryCache_GetByIndex testRuntime c' ''email'' ''b@example.com'' =
          Some (testUser ''2'' ''b@example.com'' ''Normalized: Two'')"
    by blast
  note norm = GetByIndex_key_normalization [of testRuntime _ _ c' "''email''"]
  from norm [of "''  B@Example.COM ''" "''b@example.com''"] eq
  have same: "MemoryCache_GetByIndex testRuntime c' ''email'' ''  B@Example.COM '' =
        MemoryCache_GetByIndex testRuntime c' ''email'' ''b@example.com''"
    by blast
  from norm [of _ _ "''  B@Example.COM ''"] testRuntime_laws
  have form: "MemoryCache_GetByIndex testRuntime c' ''email''
            (ToLower testRuntime (TrimSpace testRuntime ''  B@Example.COM '')) =
          MemoryCache_GetByIndex testRuntime c' ''email'' ''  B@Example.COM ''"
    by metis
  from same get
  have get2: "MemoryCache_GetByIndex testRuntime c' ''email'' ''  B@Example.COM '' =
          Some (testUser ''2'' ''b@example.com'' ''Normalized: Two'')"
    by (rule trans)
  show ?thesis
  proof (intro conjI)
    show "ToLower testRuntime (TrimSpace testRuntime ''  B@Example.COM '') =
      ToLower testRuntime (TrimSpace testRuntime ''b@example.com'')"
      by (rule eq)
    show "normalisation_laws testRuntime" by (rule testRuntime_laws)
    show "ToLower testRuntime (TrimSpace testRuntime ''  B@Example.COM '') = ''b@example.com''"
      by (rule low)
    show "\<exists>c'. MemoryCache_Set testRuntime pipelineCache pipelineInput = Inr c'
      \<and> MemoryCache_GetByIndex testRuntime c' ''email'' ''  B@Example.COM '' =
          Some (testUser ''2'' ''b@example.com'' ''Normalized: Two'')
      \<and> MemoryCache_GetByIndex testRuntime c' ''email'' ''b@example.com'' =
          Some (testUser ''2'' ''b@example.com'' ''Normalized: Two'')
      \<and> MemoryCache_GetByIndex testRuntime c' ''email''
            (ToLower testRuntime (TrimSpace testRuntime ''  B@Example.COM '')) =
          MemoryCache_GetByIndex testRuntime c' ''email'' ''  B@Example.COM ''"
      using set get get2 form by blast
  qed
qed


section \<open>When Set panics\<close>

lemma Set_Inl_iff:
  assumes "indexes_registered c"
  shows "(\<exists>p. MemoryCache_Set rt c vs = Inl p) \<longleftrightarrow> vs \<noteq> [] \<and> PrimaryKeyFunc (config c) = None"
proof (cases "vs \<noteq> [] \<and> PrimaryKeyFunc (config c) = None")
  case True
  then show ?thesis by (simp add: MemoryCache_Set_def)
next
  case False
  then have "vs = [] \<or> PrimaryKeyFunc (config c) \<noteq> None" by simp
  from Set_result [OF this assms, of rt] False show ?thesis by auto
qed

lemma Set_empty:
  "\<exists>c'. MemoryCache_Set rt c [] = Inr c' \<and> data c' = Map.empty \<and> order c' = []"
  by (simp add: MemoryCache_Set_def Let_def)

text \<open>
  Claim C4. On a cache whose two index registries hold the same names (every cache built
  by the constructor), \<^verbatim>\<open>Set(values)\<close> panics if and only if \<open>values\<close> is not empty and no
  primary-key extractor is configured. On every cache, \<^verbatim>\<open>Set\<close> of an empty or nil slice
  returns, with or without a key extractor, and leaves an empty cache.
\<close>

theorem Set_panics_iff_no_key_extractor:
  "(indexes_registered c \<longrightarrow>
      ((\<exists>p. MemoryCache_Set rt c vs = Inl p) \<longleftrightarrow> vs \<noteq> [] \<and> PrimaryKeyFunc (config c) = None))
   \<and> (\<exists>c'. MemoryCache_Set rt c [] = Inr c' \<and> MemoryCache_Len c' = 0 \<and> MemoryCache_GetAll c' = []
          \<and> (\<forall>k. MemoryCache_Get c' k = None))"
proof -
  from Set_empty [of rt c] obtain c' where
    "MemoryCache_Set rt c [] = Inr c'" "data c' = Map.empty" "order c' = []" by blast
  then have "\<exists>c'. MemoryCache_Set rt c [] = Inr c' \<and> MemoryCache_Len c' = 0 \<and> MemoryCache_GetAll c' = []
          \<and> (\<forall>k. MemoryCache_Get c' k = None)"
    by (simp add: MemoryCache_Len_def MemoryCache_GetAll_def MemoryCache_Get_def List.map_filter_simps)
  then show ?thesis using Set_Inl_iff [of c rt vs] by blast
qed

theorem Set_panics_iff_no_key_extractor_witness:
  "indexes_registered bareCache \<and> PrimaryKeyFunc (config bareCache) = None
   \<and> MemoryCache_Set testRuntime bareCache pipelineInput = Inl PanicNoPrimaryKeyFunc
   \<and> (\<exists>c'. MemoryCache_Set testRuntime bareCache [] = Inr c' \<and> MemoryCache_Len c' = 0)
   \<and> indexes_registered pipelineCache
   \<and> (\<exists>c'. MemoryCache_Set testRuntime pipelineCache pipelineInput = Inr c')"
proof -
  have h: "indexes_registered bareCache"
    by (simp add: bareCache_def NewMultiIndexCache_def indexes_registered_def)
  have nk: "PrimaryKeyFunc (config bareCache) = None"
    by (simp add: bareCache_def NewMultiIndexCache_def DefaultConfig_def)
  have ne: "pipelineInput \<noteq> []" by (simp add: pipelineInput_def)
  have h': "indexes_registered pipelineCache"
    by (simp add: pipelineCache_def NewMultiIndexCache_def MemoryCache_AddIndex_def
        indexes_registered_def)
  have k: "PrimaryKeyFunc (config pipelineCache) \<noteq> None"
    by (simp add: test_defs)
  from Set_panics_iff_no_key_extractor [of bareCache testRuntime pipelineInput] h nk ne
  have "\<exists>p. MemoryCache_Set testRuntime bareCache pipelineInput = Inl p" by blast
  then have a: "MemoryCache_Set testRuntime bareCache pipelineInput = Inl PanicNoPrimaryKeyFunc"
    by (simp add: MemoryCache_Set_def nk ne)
  from Set_panics_iff_no_key_extractor [of bareCache testRuntime pipelineInput]
  have b: "\<exists>c'. MemoryCache_Set testRuntime bareCache [] = Inr c' \<and> MemoryCache_Len c' = 0"
    by blast
  from Set_panics_iff_no_key_extractor [of pipelineCache testRuntime pipelineInput] h' k
  have "\<not> (\<exists>p. MemoryCache_Set testRuntime pipelineCache pipelineInput = Inl p)" by blast
  then have c: "\<exists>c'. MemoryCache_Set testRuntime pipelineCache pipelineInput = Inr c'"
    by (cases "MemoryCache_Set testRuntime pipelineCache pipelineInput") auto
  from h nk a b h' c show ?thesis by blast
qed


section \<open>Reachable states of the memory cache\<close>

lemma map_of_rev_keyed_key:
  "map_of (rev (keyed cfg ws)) k = Some v \<Longrightarrow> primaryKey cfg v = k"
  by (auto simp: keyed_def dest!: map_of_SomeD)

lemma dom_clearIndexes: "dom (clearIndexes idxs) = dom idxs"
  by (auto simp: clearIndexes_def split: option.splits)

lemma reachable_invariant:
  assumes "reachable rt c"
  shows "order_matches_data c \<and> indexes_registered c \<and> keys_match_values c"
  using assms
proof (induction rule: reachable.induct)
  case (reach_New cfg)
  then show ?case
    by (simp add: NewMultiIndexCache_def order_matches_data_def indexes_registered_def
        keys_match_values_def)
next
  case (reach_Set c vs c')
  then have reg: "indexes_registered c" by simp
  from reach_Set.hyps(2) have "vs = [] \<or> PrimaryKeyFunc (config c) \<noteq> None"
    by (auto simp: MemoryCache_Set_def split: if_splits)
  from Set_result [OF this reg, of rt] reach_Set.hyps(2) have
    d: "data c' = map_of (rev (keyed (config c) (accepted (config c) vs)))"
    and ord: "order c' = first_occurrences (map (primaryKey (config c)) (accepted (config c) vs))"
    and cfg: "config c' = config c" and fns: "indexFns c' = indexFns c"
    and idx: "dom (indexes c') = dom (indexes c)"
    by auto
  have "order_matches_data c'"
    by (simp add: order_matches_data_def d ord distinct_first_occurrences set_first_occurrences
        dom_map_of_rev_keyed)
  moreover have "indexes_registered c'"
    using reg by (simp add: indexes_registered_def fns idx)
  moreover have "keys_match_values c'"
    using map_of_rev_keyed_key [of "config c" "accepted (config c) vs"]
    by (auto simp: keys_match_values_def d cfg)
  ultimately show ?case by blast
next
  case (reach_Clear c)
  then show ?case
    by (simp add: MemoryCache_Clear_def order_matches_data_def indexes_registered_def
        keys_match_values_def dom_clearIndexes)
next
  case (reach_AddIndex c visit name keyFunc)
  then show ?case
    by (simp add: MemoryCache_AddIndex_def order_matches_data_def indexes_registered_def
        keys_match_values_def)
next
  case (reach_RemoveIndex c name)
  then show ?case
    by (simp add: MemoryCache_RemoveIndex_def order_matches_data_def indexes_registered_def
        keys_match_values_def)
qed

lemma iterate_True:
  "iterate (\<lambda>_. True) d ks = List.map_filter d ks"
  by (induction ks) (auto simp: List.map_filter_simps split: option.splits)

lemma reachable_pipelineCache: "reachable testRuntime pipelineCache"
  unfolding pipelineCache_def
  by (rule reach_AddIndex [OF reach_New]) (simp add: range_order_def NewMultiIndexCache_def)

text \<open>
  Claim C10. In every state a memory cache can reach from a fresh cache by calls of
  \<^verbatim>\<open>Set\<close>, \<^verbatim>\<open>Clear\<close>, \<^verbatim>\<open>AddIndex\<close> and \<^verbatim>\<open>RemoveIndex\<close>, the order sequence holds exactly
  the keys of the primary mapping, each once. Hence \<^verbatim>\<open>Len()\<close> is the length of \<^verbatim>\<open>GetAll()\<close>,
  \<^verbatim>\<open>GetAll()\<close> is the list of the values stored under the keys of the order sequence and
  holds no two values with the same primary key, and \<^verbatim>\<open>Iterate\<close> with a callback that
  always returns true visits exactly the values of \<^verbatim>\<open>GetAll()\<close>, each stored value once.
\<close>

theorem reachable_order_enumerates_data:
  assumes "reachable rt c"
  shows "distinct (order c) \<and> set (order c) = dom (data c)
     \<and> MemoryCache_Len c = length (MemoryCache_GetAll c)
     \<and> MemoryCache_GetAll c = map (\<lambda>k. the (data c k)) (order c)
     \<and> distinct (map (primaryKey (config c)) (MemoryCache_GetAll c))
     \<and> MemoryCache_Iterate c (\<lambda>_. True) = MemoryCache_GetAll c"
proof -
  from reachable_invariant [OF assms] have
    dist: "distinct (order c)" and keys: "set (order c) = dom (data c)"
    and kv: "\<forall>k \<in> dom (data c). primaryKey (config c) (the (data c k)) = k"
    by (simp_all add: order_matches_data_def keys_match_values_def)
  from keys have "\<forall>k \<in> set (order c). data c k \<noteq> None" by auto
  then have all: "MemoryCache_GetAll c = map (\<lambda>k. the (data c k)) (order c)"
    unfolding MemoryCache_GetAll_def by (rule map_filter_all_Some)
  have "MemoryCache_Len c = card (set (order c))" by (simp add: MemoryCache_Len_def keys)
  also have "\<dots> = length (order c)" using dist by (rule distinct_card)
  finally have len: "MemoryCache_Len c = length (MemoryCache_GetAll c)" by (simp add: all)
  have "map (primaryKey (config c)) (MemoryCache_GetAll c) =
        map (\<lambda>k. primaryKey (config c) (the (data c k))) (order c)"
    by (simp add: all)
  also have "\<dots> = map (\<lambda>k. k) (order c)"
    using kv keys by (intro map_cong) auto
  finally have pks: "distinct (map (primaryKey (config c)) (MemoryCache_GetAll c))"
    using dist by simp
  have it: "MemoryCache_Iterate c (\<lambda>_. True) = MemoryCache_GetAll c"
    by (simp add: MemoryCache_Iterate_def MemoryCache_GetAll_def iterate_True)
  from dist keys len all pks it show ?thesis by blast
qed

theorem reachable_order_enumerates_data_witness:
  "\<exists>c. MemoryCache_Set testRuntime pipelineCache pipelineInput = Inr c
     \<and> reachable testRuntime c
     \<and> distinct (order c) \<and> set (order c) = dom (data c)
     \<and> MemoryCache_Len c = length (MemoryCache_GetAll c)
     \<and> MemoryCache_Iterate c (\<lambda>_. True) = MemoryCache_GetAll c"
proof -
  have "pipelineInput = [] \<or> PrimaryKeyFunc (config pipelineCache) \<noteq> None"
    by (simp add: test_defs)
  moreover have "indexes_registered pipelineCache"
    by (simp add: pipelineCache_def NewMultiIndexCache_def MemoryCache_AddIndex_def
        indexes_registered_def)
  ultimately obtain c where set: "MemoryCache_Set testRuntime pipelineCache pipelineInput = Inr c"
    using Set_result [of pipelineInput pipelineCache testRuntime] by blast
  with reachable_pipelineCache have r: "reachable testRuntime c" by (rule reach_Set)
  from reachable_order_enumerates_data [OF r] set r show ?thesis by blast
qed


section \<open>Clear\<close>

lemma length_EncodeToString: "length (EncodeToString w) = 64"
  by (simp add: EncodeToString_def)

lemma sha256Hash_not_empty: "sha256Hash rt s \<noteq> []"
  using length_EncodeToString [of "sha256_Sum rt s"] by (auto simp: sha256Hash_def)

text \<open>
  Claim C2, amended. After \<^verbatim>\<open>Clear()\<close>, in every state of the cache: \<^verbatim>\<open>Len()\<close> is 0,
  every index name is registered exactly as before, no lookup through an index finds
  anything, and \<^verbatim>\<open>GetHash()\<close> returns the empty string, which is the hash of a cache that
  has just been constructed. It is not the digest of an empty dataset that \<^verbatim>\<open>Set\<close> of an
  empty slice caches: that one is \<^verbatim>\<open>sha256Hash("empty")\<close>, a string of 64 hexadecimal
  digits.
\<close>

theorem Clear_sets_hash_to_empty_string:
  "MemoryCache_Len (MemoryCache_Clear c) = 0
   \<and> MemoryCache_HasIndex (MemoryCache_Clear c) name = MemoryCache_HasIndex c name
   \<and> MemoryCache_GetByIndex rt (MemoryCache_Clear c) name k = None
   \<and> MemoryCache_GetHash (MemoryCache_Clear c) = []
   \<and> MemoryCache_GetHash (NewMultiIndexCache rt cfg) = []
   \<and> sha256Hash rt ''empty'' \<noteq> []
   \<and> length (sha256Hash rt ''empty'') = 64
   \<and> (\<exists>c'. MemoryCache_Set rt c [] = Inr c' \<and> MemoryCache_GetHash c' = sha256Hash rt ''empty'')"
proof -
  have "MemoryCache_GetByIndex rt (MemoryCache_Clear c) name k = None"
    by (simp add: MemoryCache_GetByIndex_def MemoryCache_Clear_def clearIndexes_def
        split: option.splits)
  moreover have "\<exists>c'. MemoryCache_Set rt c [] = Inr c' \<and> MemoryCache_GetHash c' = sha256Hash rt ''empty''"
    by (simp add: MemoryCache_Set_def Let_def MemoryCache_GetHash_def calculateHash_def)
  moreover have "MemoryCache_GetHash (NewMultiIndexCache rt cfg) = []"
    by (simp add: MemoryCache_GetHash_def NewMultiIndexCache_def)
  moreover have "length (sha256Hash rt ''empty'') = 64"
    by (simp add: sha256Hash_def length_EncodeToString)
  ultimately show ?thesis
    using sha256Hash_not_empty [of rt "''empty''"]
    by (simp add: MemoryCache_Len_def MemoryCache_Clear_def MemoryCache_HasIndex_def
        MemoryCache_GetHash_def)
qed

text \<open>
  The hash after \<^verbatim>\<open>Clear()\<close> differs from the hash after \<^verbatim>\<open>Set\<close> of an empty slice: on the
  test cache with its e-mail index, loaded and then cleared, \<^verbatim>\<open>GetHash()\<close> is the empty
  string, and after \<^verbatim>\<open>Set\<close> of an empty slice it is the digest of \<^verbatim>\<open>"empty"\<close>.
\<close>

theorem Clear_hash_counterexample:
  "map_sum id (MemoryCache_GetHash \<circ> MemoryCache_Clear)
       (MemoryCache_Set testRuntime pipelineCache pipelineInput) = Inr []
   \<and> map_sum id MemoryCache_GetHash (MemoryCache_Set testRuntime pipelineCache []) =
       Inr (sha256Hash testRuntime ''empty'')
   \<and> [] \<noteq> sha256Hash testRuntime ''empty''"
proof -
  have pk: "PrimaryKeyFunc (config pipelineCache) = Some ID"
    by (simp add: test_defs)
  have reg: "indexes_registered pipelineCache"
    by (simp add: pipelineCache_def NewMultiIndexCache_def MemoryCache_AddIndex_def
        indexes_registered_def)
  from Set_GetAll [OF pk reg, of testRuntime pipelineInput] obtain m where
    set: "MemoryCache_Set testRuntime pipelineCache pipelineInput = Inr m" by blast
  have a: "map_sum id (MemoryCache_GetHash \<circ> MemoryCache_Clear)
       (MemoryCache_Set testRuntime pipelineCache pipelineInput) = Inr []"
    unfolding set by (simp add: MemoryCache_GetHash_def MemoryCache_Clear_def)
  have b: "map_sum id MemoryCache_GetHash (MemoryCache_Set testRuntime pipelineCache []) =
       Inr (sha256Hash testRuntime ''empty'')"
    by (simp add: MemoryCache_Set_def Let_def MemoryCache_GetHash_def calculateHash_def)
  from a b sha256Hash_not_empty [of testRuntime "''empty''"] show ?thesis by simp
qed


section \<open>Registering an index before and after a load\<close>

lemmas set_defs = MemoryCache_Set_def Let_def normalizeValue_def validateFails_def
  primaryKey_def nilIndexWrite_def updateIndexes_def clearIndexes_def

lemma nk_test:
  "normalizeKey testRuntime ''first@example.com'' = ''first@example.com''"
  "normalizeKey testRuntime ''second@example.com'' = ''second@example.com''"
  "normalizeKey testRuntime ''shared@example.com'' = ''shared@example.com''"
  by code_simp+

lemma range_order_single: "range_order [k \<mapsto> v] visit = (visit = [k])"
proof
  assume "range_order [k \<mapsto> v] visit"
  then have d: "distinct visit" and s: "set visit = {k}" by (simp_all add: range_order_def)
  from s have "visit \<noteq> []" by auto
  then obtain x xs where v: "visit = x # xs" by (cases visit) auto
  with s have "x = k" by auto
  moreover have "xs = []"
  proof (cases xs)
    case Nil
    then show ?thesis .
  next
    case (Cons y ys)
    with v s have "y = k" by auto
    with Cons v d \<open>x = k\<close> show ?thesis by simp
  qed
  ultimately show "visit = [k]" using v by simp
next
  assume "visit = [k]"
  then show "range_order [k \<mapsto> v] visit" by (simp add: range_order_def)
qed

lemma Set_duplicateInput: "\<exists>cA. MemoryCache_Set testRuntime keyedCache duplicateInput = Inr cA
   \<and> data cA = [''1'' \<mapsto> testUser ''1'' ''second@example.com'' ''Second'']"
  by (simp add: set_defs test_defs keyedCache_def duplicateInput_def)

lemma AddIndex_after_duplicateInput:
  assumes "data cA = [''1'' \<mapsto> testUser ''1'' ''second@example.com'' ''Second'']"
  shows "indexes (MemoryCache_AddIndex testRuntime [''1''] ''email'' Email cA) ''email'' = Some [''second@example.com'' \<mapsto> ''1'']"
    and "MemoryCache_GetByIndex testRuntime (MemoryCache_AddIndex testRuntime [''1''] ''email'' Email cA) ''email'' ''first@example.com'' = None"
  using assms by (simp_all add: MemoryCache_AddIndex_def MemoryCache_GetByIndex_def testUser_def nk_test)

lemma Set_duplicateInput_indexed: "\<exists>cB idx. MemoryCache_Set testRuntime (MemoryCache_AddIndex testRuntime [] ''email'' Email keyedCache) duplicateInput = Inr cB
   \<and> indexes cB ''email'' = Some idx \<and> idx ''first@example.com'' = Some ''1''
   \<and> data cB ''1'' = Some (testUser ''1'' ''second@example.com'' ''Second'')"
  by (simp add: set_defs test_defs keyedCache_def duplicateInput_def nk_test)

text \<open>
  Claim C3. Registering an index after a load does not always leave it as if it had been
  registered before the load. With the two values of the duplicate-key test (one
  primary key, two e-mails), \<^verbatim>\<open>Set\<close> followed by \<^verbatim>\<open>AddIndex("email")\<close> indexes the surviving
  value only, whatever the order of the loop over \<^verbatim>\<open>c.data\<close> (it holds the single key 1),
  while \<^verbatim>\<open>AddIndex("email")\<close> followed by \<^verbatim>\<open>Set\<close> also keeps the entry of the overwritten
  value: a lookup of the first e-mail finds nothing on one path and the second value on
  the other.
\<close>

theorem AddIndex_after_Set_differs_from_before:
  "\<exists>cA cB idxA idxB.
     MemoryCache_Set testRuntime keyedCache duplicateInput = Inr cA
   \<and> MemoryCache_Set testRuntime (MemoryCache_AddIndex testRuntime [] ''email'' Email keyedCache) duplicateInput = Inr cB
   \<and> (\<forall>visit. range_order (data cA) visit = (visit = [''1'']))
   \<and> indexes (MemoryCache_AddIndex testRuntime [''1''] ''email'' Email cA) ''email'' = Some idxA
   \<and> indexes cB ''email'' = Some idxB
   \<and> idxA ''first@example.com'' = None
   \<and> idxB ''first@example.com'' = Some ''1''
   \<and> MemoryCache_GetByIndex testRuntime (MemoryCache_AddIndex testRuntime [''1''] ''email'' Email cA) ''email'' ''first@example.com'' = None
   \<and> MemoryCache_GetByIndex testRuntime cB ''email'' ''first@example.com'' =
        Some (testUser ''1'' ''second@example.com'' ''Second'')"
proof -
  from Set_duplicateInput obtain cA where
    setA: "MemoryCache_Set testRuntime keyedCache duplicateInput = Inr cA"
    and dA: "data cA = [''1'' \<mapsto> testUser ''1'' ''second@example.com'' ''Second'']"
    by blast
  from Set_duplicateInput_indexed obtain cB idxB where
    setB: "MemoryCache_Set testRuntime (MemoryCache_AddIndex testRuntime [] ''email'' Email keyedCache) duplicateInput = Inr cB"
    and iB: "indexes cB ''email'' = Some idxB" "idxB ''first@example.com'' = Some ''1''"
    and dB: "data cB ''1'' = Some (testUser ''1'' ''second@example.com'' ''Second'')"
    by blast
  have ro: "\<forall>visit. range_order (data cA) visit = (visit = [''1''])"
    by (simp add: dA range_order_single)
  have getB: "MemoryCache_GetByIndex testRuntime cB ''email'' ''first@example.com'' =
        Some (testUser ''1'' ''second@example.com'' ''Second'')"
    by (simp add: MemoryCache_GetByIndex_def iB dB nk_test)
  have "[''second@example.com'' \<mapsto> ''1''] ''first@example.com'' = None" by simp
  with setA setB ro iB getB AddIndex_after_duplicateInput [OF dA] show ?thesis by blast
qed

lemma Set_sharedEmailInput:
  "\<exists>cA. MemoryCache_Set testRuntime keyedCache sharedEmailInput = Inr cA
     \<and> data cA = [''1'' \<mapsto> testUser ''1'' ''shared@example.com'' ''One'',
                    ''2'' \<mapsto> testUser ''2'' ''shared@example.com'' ''Two'']"
  by (simp add: set_defs test_defs keyedCache_def sharedEmailInput_def)

text \<open>
  With two primary keys under one index key, the index that \<^verbatim>\<open>AddIndex\<close> builds depends on
  the order in which the loop over \<^verbatim>\<open>c.data\<close> visits the keys, and one of the two orders
  disagrees with the index that \<^verbatim>\<open>Set\<close> maintains.
\<close>

lemma AddIndex_depends_on_range_order:
  "\<exists>cA cB.
     MemoryCache_Set testRuntime keyedCache sharedEmailInput = Inr cA
   \<and> MemoryCache_Set testRuntime (MemoryCache_AddIndex testRuntime [] ''email'' Email keyedCache) sharedEmailInput = Inr cB
   \<and> range_order (data cA) [''1'', ''2''] \<and> range_order (data cA) [''2'', ''1'']
   \<and> MemoryCache_GetByIndex testRuntime (MemoryCache_AddIndex testRuntime [''1'', ''2''] ''email'' Email cA) ''email'' ''shared@example.com'' =
        Some (testUser ''2'' ''shared@example.com'' ''Two'')
   \<and> MemoryCache_GetByIndex testRuntime (MemoryCache_AddIndex testRuntime [''2'', ''1''] ''email'' Email cA) ''email'' ''shared@example.com'' =
        Some (testUser ''1'' ''shared@example.com'' ''One'')
   \<and> MemoryCache_GetByIndex testRuntime cB ''email'' ''shared@example.com'' =
        Some (testUser ''2'' ''shared@example.com'' ''Two'')"
proof -
  from Set_sharedEmailInput obtain cA where
    setA: "MemoryCache_Set testRuntime keyedCache sharedEmailInput = Inr cA"
    and dA: "data cA = [''1'' \<mapsto> testUser ''1'' ''shared@example.com'' ''One'',
                    ''2'' \<mapsto> testUser ''2'' ''shared@example.com'' ''Two'']"
    by blast
  have ro: "range_order (data cA) [''1'', ''2'']" "range_order (data cA) [''2'', ''1'']"
    by (auto simp: dA range_order_def)
  have g12: "MemoryCache_GetByIndex testRuntime (MemoryCache_AddIndex testRuntime [''1'', ''2''] ''email'' Email cA) ''email'' ''shared@example.com'' =
        Some (testUser ''2'' ''shared@example.com'' ''Two'')"
    by (simp add: MemoryCache_AddIndex_def MemoryCache_GetByIndex_def dA testUser_def nk_test)
  have g21: "MemoryCache_GetByIndex testRuntime (MemoryCache_AddIndex testRuntime [''2'', ''1''] ''email'' Email cA) ''email'' ''shared@example.com'' =
        Some (testUser ''1'' ''shared@example.com'' ''One'')"
    by (simp add: MemoryCache_AddIndex_def MemoryCache_GetByIndex_def dA testUser_def nk_test)
  have "\<exists>cB. MemoryCache_Set testRuntime (MemoryCache_AddIndex testRuntime [] ''email'' Email keyedCache) sharedEmailInput = Inr cB
     \<and> MemoryCache_GetByIndex testRuntime cB ''email'' ''shared@example.com'' =
        Some (testUser ''2'' ''shared@example.com'' ''Two'')"
    by (simp add: set_defs test_defs keyedCache_def sharedEmailInput_def nk_test
        MemoryCache_GetByIndex_def)
  with setA ro g12 g21 show ?thesis by blast
qed


section \<open>Decimal integers: printing and parsing\<close>

text \<open>
  The equation of \<open>formatNat\<close> is applied by hand, at the number in question.
\<close>

declare formatNat.simps [simp del]

lemma of_char_digitChar: "d < 10 \<Longrightarrow> (of_char (digitChar d) :: nat) = 48 + d"
  by (simp add: digitChar_def)

lemma digitValue_digitChar: "d < 10 \<Longrightarrow> digitValue (digitChar d) = Some d"
  by (simp add: digitValue_def of_char_digitChar)

lemma digitChar_not_sign:
  assumes "d < 10"
  shows "digitChar d \<noteq> CHR ''-''" and "digitChar d \<noteq> CHR ''+''"
proof -
  have "(of_char (digitChar d) :: nat) \<noteq> of_char CHR ''-''"
    using assms by (simp add: of_char_digitChar)
  then show "digitChar d \<noteq> CHR ''-''" by auto
  have "(of_char (digitChar d) :: nat) \<noteq> of_char CHR ''+''"
    using assms by (simp add: of_char_digitChar)
  then show "digitChar d \<noteq> CHR ''+''" by auto
qed

lemma parseDigits_snoc:
  "d < 10 \<Longrightarrow>
   parseDigits (cs @ [digitChar d]) acc = map_option (\<lambda>m. 10 * m + d) (parseDigits cs acc)"
  by (induction cs arbitrary: acc) (simp_all add: digitValue_digitChar split: option.splits)

lemma parseDigits_formatNat: "parseDigits (formatNat n) 0 = Some n"
proof (induction n rule: formatNat.induct)
  case (1 n)
  show ?case
  proof (cases "n < 10")
    case True
    then show ?thesis by (simp add: formatNat.simps [of n] digitValue_digitChar)
  next
    case False
    with 1 have "parseDigits (formatNat (n div 10)) 0 = Some (n div 10)" by simp
    with False show ?thesis by (simp add: formatNat.simps [of n] parseDigits_snoc)
  qed
qed

lemma formatNat_head: "\<exists>d cs. formatNat n = digitChar d # cs \<and> d < 10"
proof (induction n rule: formatNat.induct)
  case (1 n)
  show ?case
  proof (cases "n < 10")
    case True
    then show ?thesis by (auto simp: formatNat.simps [of n])
  next
    case False
    with 1 obtain d cs where "formatNat (n div 10) = digitChar d # cs" "d < 10" by blast
    with False show ?thesis by (auto simp: formatNat.simps [of n])
  qed
qed

lemma ParseInt64_formatInt:
  assumes "inInt64 i"
  shows "ParseInt64 (formatInt i) = Some i"
proof -
  obtain d cs where hd: "formatNat (nat \<bar>i\<bar>) = digitChar d # cs" "d < 10"
    using formatNat_head by blast
  have pd: "parseDigits (digitChar d # cs) 0 = Some (nat \<bar>i\<bar>)"
    using parseDigits_formatNat [of "nat \<bar>i\<bar>"] hd by simp
  show ?thesis
  proof (cases "i < 0")
    case True
    then have "formatInt i = CHR ''-'' # digitChar d # cs"
      using hd by (simp add: formatInt_def abs_if)
    then show ?thesis using True assms pd by (simp add: ParseInt64_def Let_def)
  next
    case False
    then have "formatInt i = digitChar d # cs"
      using hd by (simp add: formatInt_def abs_if)
    then show ?thesis
      using False assms pd digitChar_not_sign [OF hd(2)] by (simp add: ParseInt64_def Let_def)
  qed
qed

lemma string2ll_formatInt: "inInt64 i \<Longrightarrow> string2ll (formatInt i) = Some i"
  by (simp add: string2ll_def ParseInt64_formatInt)

lemma ParseInt64_inInt64: "ParseInt64 s = Some i \<Longrightarrow> inInt64 i"
  by (auto simp: ParseInt64_def Let_def split: list.splits option.splits if_splits)

lemma string2ll_Some:
  assumes "string2ll s = Some i"
  shows "ParseInt64 s = Some i" and "inInt64 i"
proof -
  from assms show "ParseInt64 s = Some i"
    by (auto simp: string2ll_def split: option.splits if_splits)
  then show "inInt64 i" by (rule ParseInt64_inInt64)
qed


section \<open>The remote adapter: writes\<close>

lemma key_neq_versionKey:
  "VersionKeySuffix (redisConfig c) \<noteq> [] \<Longrightarrow> key c \<noteq> versionKey c"
  by (simp add: versionKey_def)

lemma NewRedisCache_suffix:
  "NewRedisCache m cl cfg = Inr c \<Longrightarrow> VersionKeySuffix (redisConfig c) \<noteq> []"
  by (auto simp: NewRedisCache_def Let_def split: if_splits option.splits)

lemma NewRedisCacheWithKey_suffix:
  "NewRedisCacheWithKey m cl k cfg = Inr c \<Longrightarrow> VersionKeySuffix (redisConfig c) \<noteq> []"
  by (auto simp: NewRedisCacheWithKey_def Let_def split: if_splits option.splits)

lemma effectiveTTL_positive: "0 < effectiveTTL c ttl"
  by (simp add: effectiveTTL_def Hour_def Second_def Millisecond_def)

text \<open>The arguments the client sends for a positive duration.\<close>

lemma formatSec_positive: "0 < d \<Longrightarrow> formatSec d = max 1 (d div Second)"
  by (auto simp: formatSec_def quo_def Second_def Millisecond_def max_def)

lemma formatMs_positive: "0 < d \<Longrightarrow> formatMs d = max 1 (d div Millisecond)"
  by (auto simp: formatMs_def quo_def Millisecond_def max_def)

lemma usePrecise_positive: "0 < d \<Longrightarrow> usePrecise d \<longleftrightarrow> d mod Second \<noteq> 0"
proof -
  assume d: "0 < d"
  have s: "0 < Second" by (simp add: Second_def Millisecond_def)
  from d have "rem d Second = d mod Second"
    by (simp add: rem_def quo_def minus_mult_div_eq_mod)
  moreover have "d mod Second \<noteq> 0" if "d < Second"
    using that d by simp
  ultimately show ?thesis by (auto simp: usePrecise_def)
qed

lemma whole_seconds: "0 < d \<Longrightarrow> d mod Second = 0 \<Longrightarrow> max 1 (d div Second) * Second = d"
proof -
  assume d: "0 < d" and m: "d mod Second = 0"
  have s: "0 < Second" by (simp add: Second_def Millisecond_def)
  from m have e: "d div Second * Second = d" by auto
  have "Second \<le> d"
  proof (rule ccontr)
    assume "\<not> Second \<le> d"
    with d have "d mod Second = d" by simp
    with m d show False by simp
  qed
  with s have "0 < d div Second" by (simp add: pos_imp_zdiv_pos_iff)
  with e show ?thesis by (simp add: max_def)
qed

text \<open>The expiry that \<^verbatim>\<open>Set\<close> of the client gives a key, for a positive duration.\<close>

lemma exec_Pipeliner_Set:
  assumes "0 < d"
  shows "exec_command (Pipeliner_Set k v d) es =
     (None, es(k \<mapsto> \<lparr>val = v,
                        expiry = Some (if d mod Second = 0 then d
                                       else max 1 (d div Millisecond) * Millisecond)\<rparr>))"
proof (cases "d mod Second = 0")
  case True
  with assms have "Pipeliner_Set k v d = SET k v (EX_arg (max 1 (d div Second)))"
    by (simp add: Pipeliner_Set_def usePrecise_positive formatSec_positive)
  then show ?thesis using True whole_seconds [OF assms True] by (simp add: max_def split: if_splits)
next
  case False
  with assms have "Pipeliner_Set k v d = SET k v (PX_arg (max 1 (d div Millisecond)))"
    by (simp add: Pipeliner_Set_def usePrecise_positive formatMs_positive)
  then show ?thesis using False by (simp add: max_def)
qed

lemma exec_Pipeliner_Expire:
  assumes "0 < d" and "es k = Some e"
  shows "exec_command (Pipeliner_Expire k d) es =
     (None, es(k \<mapsto> e\<lparr>expiry := Some (max 1 (d div Second) * Second)\<rparr>))"
  using assms by (simp add: Pipeliner_Expire_def formatSec_positive max_def)

text \<open>The version a store shows: 0 for a missing key, else the parsed value.\<close>

lemma GetVersion_up:
  assumes "client c \<noteq> None" and "up st"
  shows "RedisCache_GetVersion c st =
     (case entries st (versionKey c) of
        None \<Rightarrow> Inr 0
      | Some e \<Rightarrow> (case ParseInt64 (val e) of None \<Rightarrow> Inl ErrGetVersionParse | Some n \<Rightarrow> Inr n))"
  using assms by (simp add: RedisCache_GetVersion_def Client_Get_def split: option.splits)

text \<open>The batch of Set and SetWithTTL, when no command fails.\<close>

lemma exec_Set_dataExpiry:
  "0 < d \<Longrightarrow>
   exec_command (Pipeliner_Set k v d) es = (None, es(k \<mapsto> \<lparr>val = v, expiry = Some (dataExpiry d)\<rparr>))"
  by (simp add: exec_Pipeliner_Set dataExpiry_def)

lemma exec_Expire_versionExpiry:
  "0 < d \<Longrightarrow> es k = Some e \<Longrightarrow>
   exec_command (Pipeliner_Expire k d) es = (None, es(k \<mapsto> e\<lparr>expiry := Some (versionExpiry d)\<rparr>))"
  by (simp add: exec_Pipeliner_Expire versionExpiry_def)

lemma exec_Expire_missing: "es k = None \<Longrightarrow> exec_command (Pipeliner_Expire k d) es = (None, es)"
  by (simp add: Pipeliner_Expire_def)

lemmas batch_simps = exec_Set_dataExpiry exec_Expire_versionExpiry exec_Expire_missing
  Pipeliner_Incr_def Pipeliner_Del_def

lemma write_batch_success:
  assumes "k \<noteq> vk" and "0 < ttl"
    and "run_commands [Pipeliner_Set k blob ttl, Pipeliner_Incr vk, Pipeliner_Expire vk ttl] es =
           (None, es')"
  shows "\<exists>n. (case es vk of None \<Rightarrow> n = 0 | Some e \<Rightarrow> ParseInt64 (val e) = Some n)
     \<and> inInt64 (n + 1)
     \<and> es' k = Some \<lparr>val = blob, expiry = Some (dataExpiry ttl)\<rparr>
     \<and> es' vk = Some \<lparr>val = formatInt (n + 1), expiry = Some (versionExpiry ttl)\<rparr>"
proof (cases "es vk")
  case None
  with assms have "es' k = Some \<lparr>val = blob, expiry = Some (dataExpiry ttl)\<rparr>"
    and "es' vk = Some \<lparr>val = formatInt (0 + 1), expiry = Some (versionExpiry ttl)\<rparr>"
    by (auto simp: batch_simps)
  moreover have "inInt64 (0 + 1)" by (simp add: inInt64_def)
  ultimately show ?thesis using None by auto
next
  case (Some e)
  show ?thesis
  proof (cases "string2ll (val e)")
    case None
    with Some assms show ?thesis by (auto simp: batch_simps)
  next
    case (Some i)
    note i = Some
    have p: "ParseInt64 (val e) = Some i" and r: "inInt64 i" using string2ll_Some [OF i] .
    show ?thesis
    proof (cases "i = 2 ^ 63 - 1")
      case True
      with i \<open>es vk = Some e\<close> assms show ?thesis by (auto simp: batch_simps)
    next
      case False
      with r have "inInt64 (i + 1)" by (simp add: inInt64_def)
      moreover from False i \<open>es vk = Some e\<close> assms
      have "es' k = Some \<lparr>val = blob, expiry = Some (dataExpiry ttl)\<rparr>"
        and "es' vk = Some \<lparr>val = formatInt (i + 1), expiry = Some (versionExpiry ttl)\<rparr>"
        by (auto simp: batch_simps)
      ultimately show ?thesis using p \<open>es vk = Some e\<close> by auto
    qed
  qed
qed

lemma Set_as_SetWithTTL:
  "RedisCache_Set j c vs st = RedisCache_SetWithTTL j c vs (TTL (redisConfig c)) st"
  by (simp add: RedisCache_Set_def RedisCache_SetWithTTL_def)

lemma SetWithTTL_success:
  assumes suffix: "VersionKeySuffix (redisConfig c) \<noteq> []"
    and ok: "RedisCache_SetWithTTL j c vs ttl st = (None, st')"
  shows "client c \<noteq> None \<and> up st \<and> up st'
     \<and> (\<exists>blob n. Marshal j vs = Some blob
           \<and> (case entries st (versionKey c) of None \<Rightarrow> n = 0 | Some e \<Rightarrow> ParseInt64 (val e) = Some n)
           \<and> inInt64 (n + 1)
           \<and> entries st' (key c) =
               Some \<lparr>val = blob, expiry = Some (dataExpiry (effectiveTTL c ttl))\<rparr>
           \<and> entries st' (versionKey c) =
               Some \<lparr>val = formatInt (n + 1), expiry = Some (versionExpiry (effectiveTTL c ttl))\<rparr>)"
proof -
  from ok have cl: "client c \<noteq> None"
    by (cases "client c") (simp_all add: RedisCache_SetWithTTL_def)
  with ok obtain blob where blob: "Marshal j vs = Some blob"
    by (cases "Marshal j vs") (auto simp: RedisCache_SetWithTTL_def)
  let ?cs = "[Pipeliner_Set (key c) blob (effectiveTTL c ttl), Pipeliner_Incr (versionKey c),
              Pipeliner_Expire (versionKey c) (effectiveTTL c ttl)]"
  from ok cl blob have ex: "Pipeline_Exec ?cs st = (None, st')"
    by (auto simp: RedisCache_SetWithTTL_def Let_def split: prod.splits option.splits)
  then have up: "up st"
    by (auto simp: Pipeline_Exec_def split: if_splits)
  with ex obtain es' where run: "run_commands ?cs (entries st) = (None, es')"
    and st': "st' = st\<lparr>entries := es'\<rparr>"
    by (auto simp: Pipeline_Exec_def split: prod.splits)
  from write_batch_success [OF key_neq_versionKey [OF suffix] effectiveTTL_positive run]
  obtain n where
    "(case entries st (versionKey c) of None \<Rightarrow> n = 0 | Some e \<Rightarrow> ParseInt64 (val e) = Some n)"
    "inInt64 (n + 1)"
    "es' (key c) = Some \<lparr>val = blob, expiry = Some (dataExpiry (effectiveTTL c ttl))\<rparr>"
    "es' (versionKey c) =
       Some \<lparr>val = formatInt (n + 1), expiry = Some (versionExpiry (effectiveTTL c ttl))\<rparr>"
    by blast
  with cl up blob st' show ?thesis by auto
qed

lemma SetWithTTL_version:
  assumes suffix: "VersionKeySuffix (redisConfig c) \<noteq> []"
    and ok: "RedisCache_SetWithTTL j c vs ttl st = (None, st')"
  shows "\<exists>n. RedisCache_GetVersion c st = Inr n \<and> RedisCache_GetVersion c st' = Inr (n + 1)"
proof -
  from SetWithTTL_success [OF suffix ok] obtain n where
    cl: "client c \<noteq> None" and up: "up st" "up st'"
    and before: "case entries st (versionKey c) of None \<Rightarrow> n = 0 | Some e \<Rightarrow> ParseInt64 (val e) = Some n"
    and range: "inInt64 (n + 1)"
    and after: "entries st' (versionKey c) =
               Some \<lparr>val = formatInt (n + 1), expiry = Some (versionExpiry (effectiveTTL c ttl))\<rparr>"
    by blast
  have "RedisCache_GetVersion c st = Inr n"
  proof (cases "entries st (versionKey c)")
    case None
    with before show ?thesis by (simp add: GetVersion_up [OF cl up(1)])
  next
    case (Some e)
    with before show ?thesis by (simp add: GetVersion_up [OF cl up(1)])
  qed
  moreover have "RedisCache_GetVersion c st' = Inr (n + 1)"
    using after ParseInt64_formatInt [OF range] by (simp add: GetVersion_up [OF cl up(2)])
  ultimately show ?thesis by blast
qed

lemma Clear_success:
  assumes "RedisCache_Clear c st = (None, st')"
  shows "client c \<noteq> None \<and> up st' \<and> entries st' (key c) = None \<and> entries st' (versionKey c) = None"
  using assms
  by (auto simp: RedisCache_Clear_def Pipeline_Exec_def Pipeliner_Del_def
      split: if_splits prod.splits)


section \<open>The version counter\<close>

lemma decimal_one: "formatInt 1 = ''1''" "string2ll ''1'' = Some 1" "formatInt 2 = ''2''"
  by code_simp+

lemmas redis_defs = RedisCache_Set_def RedisCache_SetWithTTL_def RedisCache_Clear_def
  Pipeline_Exec_def Pipeliner_Set_def Pipeliner_Incr_def Pipeliner_Expire_def Pipeliner_Del_def
  usePrecise_def formatMs_def formatSec_def quo_def rem_def KeepTTL_def
  effectiveTTL_def versionKey_def Let_def

lemmas duration_defs = Hour_def Second_def Millisecond_def

text \<open>
  Claim C6. For an adapter built by one of the two constructors, over any store:
  \<^verbatim>\<open>GetVersion()\<close> returns 0 while the version key is absent, as it is before any \<^verbatim>\<open>Set\<close>;
  a \<^verbatim>\<open>Set\<close> or \<^verbatim>\<open>SetWithTTL\<close> that returns no error raises the version that
  \<^verbatim>\<open>GetVersion()\<close> reads by exactly 1; and a \<^verbatim>\<open>Clear()\<close> that returns no error has deleted the
  data key and the version key, so that \<^verbatim>\<open>GetVersion()\<close> returns 0 again.
\<close>

theorem version_counts_successful_writes:
  assumes "NewRedisCache m cl cfg = Inr c \<or> NewRedisCacheWithKey m cl k cfg = Inr c"
  shows "(client c \<noteq> None \<and> up st \<and> entries st (versionKey c) = None \<longrightarrow>
            RedisCache_GetVersion c st = Inr 0)
     \<and> (RedisCache_Set j c vs st = (None, st') \<longrightarrow>
          (\<exists>n. RedisCache_GetVersion c st = Inr n \<and> RedisCache_GetVersion c st' = Inr (n + 1)))
     \<and> (RedisCache_SetWithTTL j c vs ttl st = (None, st') \<longrightarrow>
          (\<exists>n. RedisCache_GetVersion c st = Inr n \<and> RedisCache_GetVersion c st' = Inr (n + 1)))
     \<and> (RedisCache_Clear c st = (None, st') \<longrightarrow>
          entries st' (key c) = None \<and> entries st' (versionKey c) = None
          \<and> RedisCache_GetVersion c st' = Inr 0)"
proof -
  from assms have suffix: "VersionKeySuffix (redisConfig c) \<noteq> []"
    using NewRedisCache_suffix NewRedisCacheWithKey_suffix by blast
  have a: "RedisCache_GetVersion c st = Inr 0"
    if "client c \<noteq> None \<and> up st \<and> entries st (versionKey c) = None"
    using that by (simp add: GetVersion_up)
  have b: "\<exists>n. RedisCache_GetVersion c st = Inr n \<and> RedisCache_GetVersion c st' = Inr (n + 1)"
    if "RedisCache_Set j c vs st = (None, st')"
    using that SetWithTTL_version [OF suffix] by (simp add: Set_as_SetWithTTL)
  have c: "\<exists>n. RedisCache_GetVersion c st = Inr n \<and> RedisCache_GetVersion c st' = Inr (n + 1)"
    if "RedisCache_SetWithTTL j c vs ttl st = (None, st')"
    using that by (rule SetWithTTL_version [OF suffix])
  have d: "entries st' (key c) = None \<and> entries st' (versionKey c) = None
          \<and> RedisCache_GetVersion c st' = Inr 0"
    if "RedisCache_Clear c st = (None, st')"
    using Clear_success [OF that] by (simp add: GetVersion_up)
  from a b c d show ?thesis by blast
qed

theorem version_counts_successful_writes_witness:
  "\<exists>c st1 st2 st3.
     NewRedisCache 0 (Some Client) None = Inr c
   \<and> RedisCache_GetVersion c emptyStore = Inr 0
   \<and> RedisCache_Set testCodec c oneUser emptyStore = (None, st1)
   \<and> RedisCache_GetVersion c st1 = Inr 1
   \<and> RedisCache_SetWithTTL testCodec c oneUser (10 * Second) st1 = (None, st2)
   \<and> RedisCache_GetVersion c st2 = Inr 2
   \<and> RedisCache_Clear c st2 = (None, st3)
   \<and> RedisCache_GetVersion c st3 = Inr 0"
proof -
  define c where "c = \<lparr>client = Some Client, redisConfig = DefaultRedisConfig 0, key = ''cache:data''\<rparr>"
  define st1 where "st1 = \<lparr>up = True, entries =
      [''cache:data'' \<mapsto> \<lparr>val = ''1;'', expiry = Some Hour\<rparr>,
       ''cache:data:version'' \<mapsto> \<lparr>val = ''1'', expiry = Some Hour\<rparr>]\<rparr>"
  define st2 where "st2 = \<lparr>up = True, entries =
      [''cache:data'' \<mapsto> \<lparr>val = ''1;'', expiry = Some (10 * Second)\<rparr>,
       ''cache:data:version'' \<mapsto> \<lparr>val = ''2'', expiry = Some (10 * Second)\<rparr>]\<rparr>"
  define st3 where "st3 = \<lparr>up = True, entries = (Map.empty :: string \<rightharpoonup> entry)\<rparr>"
  have new: "NewRedisCache 0 (Some Client) None = Inr c"
    by (simp add: NewRedisCache_def DefaultRedisConfig_def validateRedisKeys_def maxRedisKeyLen_def
        c_def)
  have s1: "RedisCache_Set testCodec c oneUser emptyStore = (None, st1)"
    by (simp add: redis_defs c_def st1_def emptyStore_def testCodec_def oneUser_def testUser_def
        DefaultRedisConfig_def duration_defs decimal_one)
  have s2: "RedisCache_SetWithTTL testCodec c oneUser (10 * Second) st1 = (None, st2)"
    by (simp add: redis_defs c_def st1_def st2_def testCodec_def oneUser_def testUser_def
        DefaultRedisConfig_def duration_defs decimal_one)
  have s3: "RedisCache_Clear c st2 = (None, st3)"
    by (simp add: redis_defs c_def st2_def st3_def DefaultRedisConfig_def)
  have pre: "client c \<noteq> None \<and> up emptyStore \<and> entries emptyStore (versionKey c) = None"
    by (simp add: c_def emptyStore_def)
  note counts = version_counts_successful_writes [of 0 "Some Client" None c]
  from counts [where st = emptyStore] new pre
  have v0: "RedisCache_GetVersion c emptyStore = Inr 0"
    by blast
  from counts [where st = emptyStore and j = testCodec and vs = oneUser and st' = st1] new s1 v0
  have v1: "RedisCache_GetVersion c st1 = Inr 1" by auto
  from counts [where st = st1 and j = testCodec and vs = oneUser and st' = st2
      and ttl = "10 * Second"] new s2 v1
  have v2: "RedisCache_GetVersion c st2 = Inr 2" by auto
  from counts [where st = st2 and st' = st3] new s3
  have v3: "RedisCache_GetVersion c st3 = Inr 0" by auto
  from new v0 s1 v1 s2 v2 s3 v3 show ?thesis by blast
qed



section \<open>Expiry of a write\<close>

lemma Second_positive: "0 < Second" and Millisecond_positive: "0 < Millisecond"
  by (simp_all add: Second_def Millisecond_def)

lemma div_bounds:
  fixes e u :: int
  assumes "0 < u"
  shows "e div u * u \<le> e" and "e < e div u * u + u"
proof -
  have "e = e div u * u + e mod u" by simp
  moreover have "0 \<le> e mod u" and "e mod u < u" using assms by simp_all
  ultimately show "e div u * u \<le> e" and "e < e div u * u + u" by linarith+
qed

lemma versionExpiry_bounds:
  assumes "0 < e"
  shows "0 < versionExpiry e" and "versionExpiry e \<le> max e Second" and "e < versionExpiry e + Second"
proof -
  have q: "e div Second * Second \<le> e" and r: "e < e div Second * Second + Second"
    using div_bounds [OF Second_positive, of e] by simp_all
  have nn: "0 \<le> e div Second" using assms Second_positive by (simp add: pos_imp_zdiv_nonneg_iff)
  show "0 < versionExpiry e" using Second_positive nn by (simp add: versionExpiry_def max_def)
  show "versionExpiry e \<le> max e Second" using q nn by (auto simp: versionExpiry_def max_def)
  show "e < versionExpiry e + Second"
  proof (cases "1 \<le> e div Second")
    case True
    with r show ?thesis by (simp add: versionExpiry_def max_def)
  next
    case False
    with nn have "e div Second = 0" by simp
    with r Second_positive show ?thesis by (simp add: versionExpiry_def max_def)
  qed
qed

lemma dataExpiry_bounds:
  assumes "0 < e"
  shows "0 < dataExpiry e" and "dataExpiry e \<le> max e Millisecond" and "e < dataExpiry e + Millisecond"
proof -
  have q: "e div Millisecond * Millisecond \<le> e"
    and r: "e < e div Millisecond * Millisecond + Millisecond"
    using div_bounds [OF Millisecond_positive, of e] by simp_all
  have nn: "0 \<le> e div Millisecond"
    using assms Millisecond_positive by (simp add: pos_imp_zdiv_nonneg_iff)
  show "0 < dataExpiry e"
    using assms Millisecond_positive nn by (simp add: dataExpiry_def max_def)
  show "dataExpiry e \<le> max e Millisecond" using q nn by (auto simp: dataExpiry_def max_def)
  show "e < dataExpiry e + Millisecond"
  proof (cases "1 \<le> e div Millisecond")
    case True
    with r Millisecond_positive show ?thesis by (simp add: dataExpiry_def max_def)
  next
    case False
    with nn have "e div Millisecond = 0" by simp
    with r Millisecond_positive show ?thesis by (simp add: dataExpiry_def max_def)
  qed
qed

lemma whole_seconds_kept:
  assumes "0 < e" and "e mod Second = 0"
  shows "dataExpiry e = e" and "versionExpiry e = e"
  using assms whole_seconds [OF assms] by (simp_all add: dataExpiry_def versionExpiry_def)

text \<open>
  Claim C9, amended. For an adapter built by \<open>NewRedisCache\<close> or
  \<open>NewRedisCacheWithKey\<close> and every duration \<open>ttl\<close>, the duration that
  \<open>SetWithTTL\<close> hands to the client is \<open>effectiveTTL\<close>: \<open>ttl\<close> itself when
  it is positive, else the configured \<open>TTL\<close> when that is positive, else one hour; it is
  always positive, and \<open>Set\<close> uses it at the configured \<open>TTL\<close>. The client sends that
  duration in the units of the server. A successful write leaves the data key with the
  duration itself when it is a whole number of seconds, and otherwise with the duration
  truncated to whole milliseconds, at least one millisecond (\<open>SET \<dots> PX\<close>); it leaves
  the version key with the duration truncated to whole seconds, at least one second
  (\<open>EXPIRE\<close>). Both expiries are positive, so a successful write never persists the
  dataset or its version without an expiry, and both equal the effective duration exactly
  when it is a whole number of seconds.
\<close>

theorem writes_always_carry_an_expiry:
  assumes "NewRedisCache m cl cfg = Inr c \<or> NewRedisCacheWithKey m cl k cfg = Inr c"
  shows "effectiveTTL c ttl =
          (if ttl > 0 then ttl
           else if TTL (redisConfig c) > 0 then TTL (redisConfig c)
           else 3600000000000)
     \<and> 0 < effectiveTTL c ttl
     \<and> (RedisCache_SetWithTTL j c vs ttl st = (None, st') \<longrightarrow>
            map_option expiry (entries st' (key c)) = Some (Some (dataExpiry (effectiveTTL c ttl)))
          \<and> map_option expiry (entries st' (versionKey c)) =
              Some (Some (versionExpiry (effectiveTTL c ttl))))
     \<and> (RedisCache_Set j c vs st = (None, st') \<longrightarrow>
            map_option expiry (entries st' (key c)) =
              Some (Some (dataExpiry (effectiveTTL c (TTL (redisConfig c)))))
          \<and> map_option expiry (entries st' (versionKey c)) =
              Some (Some (versionExpiry (effectiveTTL c (TTL (redisConfig c))))))
     \<and> dataExpiry (effectiveTTL c ttl) =
          (if effectiveTTL c ttl mod 1000000000 = 0 then effectiveTTL c ttl
           else max 1 (effectiveTTL c ttl div 1000000) * 1000000)
     \<and> versionExpiry (effectiveTTL c ttl) = max 1 (effectiveTTL c ttl div 1000000000) * 1000000000
     \<and> 0 < dataExpiry (effectiveTTL c ttl) \<and> 0 < versionExpiry (effectiveTTL c ttl)
     \<and> (effectiveTTL c ttl mod 1000000000 = 0 \<longrightarrow>
            dataExpiry (effectiveTTL c ttl) = effectiveTTL c ttl
          \<and> versionExpiry (effectiveTTL c ttl) = effectiveTTL c ttl)"
proof -
  from assms have suffix: "VersionKeySuffix (redisConfig c) \<noteq> []"
    using NewRedisCache_suffix NewRedisCacheWithKey_suffix by blast
  have eff: "effectiveTTL c ttl =
          (if ttl > 0 then ttl else if TTL (redisConfig c) > 0 then TTL (redisConfig c)
           else 3600000000000)"
    by (simp add: effectiveTTL_def duration_defs)
  have pos: "0 < effectiveTTL c t" for t by (rule effectiveTTL_positive)
  have a: "map_option expiry (entries st' (key c)) = Some (Some (dataExpiry (effectiveTTL c t)))
         \<and> map_option expiry (entries st' (versionKey c)) =
             Some (Some (versionExpiry (effectiveTTL c t)))"
    if "RedisCache_SetWithTTL j c vs t st = (None, st')" for t
    using SetWithTTL_success [OF suffix that] by auto
  have b: "map_option expiry (entries st' (key c)) =
              Some (Some (dataExpiry (effectiveTTL c (TTL (redisConfig c)))))
         \<and> map_option expiry (entries st' (versionKey c)) =
              Some (Some (versionExpiry (effectiveTTL c (TTL (redisConfig c)))))"
    if "RedisCache_Set j c vs st = (None, st')"
    using that a [of "TTL (redisConfig c)"] by (simp add: Set_as_SetWithTTL)
  have d: "dataExpiry (effectiveTTL c ttl) =
          (if effectiveTTL c ttl mod 1000000000 = 0 then effectiveTTL c ttl
           else max 1 (effectiveTTL c ttl div 1000000) * 1000000)"
    by (simp add: dataExpiry_def duration_defs)
  have v: "versionExpiry (effectiveTTL c ttl) = max 1 (effectiveTTL c ttl div 1000000000) * 1000000000"
    by (simp add: versionExpiry_def duration_defs)
  have w: "dataExpiry (effectiveTTL c ttl) = effectiveTTL c ttl
          \<and> versionExpiry (effectiveTTL c ttl) = effectiveTTL c ttl"
    if "effectiveTTL c ttl mod 1000000000 = 0"
    using whole_seconds_kept [OF pos [of ttl]] that by (simp add: duration_defs)
  from eff pos [of ttl] a [of ttl] b d v w
    dataExpiry_bounds(1) [OF pos [of ttl]] versionExpiry_bounds(1) [OF pos [of ttl]]
  show ?thesis by blast
qed

theorem writes_always_carry_an_expiry_witness:
  "\<exists>c st1 st2.
     NewRedisCache 0 (Some Client) (Some (WithTTL 0 (DefaultRedisConfig 0))) = Inr c
   \<and> RedisCache_SetWithTTL testCodec c oneUser 0 emptyStore = (None, st1)
   \<and> map_option expiry (entries st1 (key c)) = Some (Some 3600000000000)
   \<and> map_option expiry (entries st1 (versionKey c)) = Some (Some 3600000000000)
   \<and> RedisCache_SetWithTTL testCodec c oneUser 1500000000 st1 = (None, st2)
   \<and> map_option expiry (entries st2 (key c)) = Some (Some 1500000000)
   \<and> map_option expiry (entries st2 (versionKey c)) = Some (Some 1000000000)
   \<and> RedisCache_Set testCodec c oneUser emptyStore = (None, st1)"
proof -
  define c where
    "c = \<lparr>client = Some Client, redisConfig = WithTTL 0 (DefaultRedisConfig 0), key = ''cache:data''\<rparr>"
  define st1 where "st1 = \<lparr>up = True, entries =
      [''cache:data'' \<mapsto> \<lparr>val = ''1;'', expiry = Some Hour\<rparr>,
       ''cache:data:version'' \<mapsto> \<lparr>val = ''1'', expiry = Some Hour\<rparr>]\<rparr>"
  define st2 where "st2 = \<lparr>up = True, entries =
      [''cache:data'' \<mapsto> \<lparr>val = ''1;'', expiry = Some (1500 * Millisecond)\<rparr>,
       ''cache:data:version'' \<mapsto> \<lparr>val = ''2'', expiry = Some (1 * Second)\<rparr>]\<rparr>"
  have new: "NewRedisCache 0 (Some Client) (Some (WithTTL 0 (DefaultRedisConfig 0))) = Inr c"
    by (simp add: NewRedisCache_def DefaultRedisConfig_def WithTTL_def validateRedisKeys_def
        maxRedisKeyLen_def c_def)
  have ttl: "TTL (redisConfig c) = 0"
    by (simp add: c_def WithTTL_def)
  have s1: "RedisCache_SetWithTTL testCodec c oneUser 0 emptyStore = (None, st1)"
    by (simp add: redis_defs c_def st1_def emptyStore_def testCodec_def oneUser_def testUser_def
        DefaultRedisConfig_def WithTTL_def duration_defs decimal_one)
  have s2: "RedisCache_SetWithTTL testCodec c oneUser 1500000000 st1 = (None, st2)"
    by (simp add: redis_defs c_def st1_def st2_def testCodec_def oneUser_def testUser_def
        DefaultRedisConfig_def WithTTL_def duration_defs decimal_one)
  have s3: "RedisCache_Set testCodec c oneUser emptyStore = (None, st1)"
    using s1 by (simp add: Set_as_SetWithTTL ttl)
  note expiry = writes_always_carry_an_expiry [OF disjI1 [OF new],
      where j = testCodec and vs = oneUser]
  have v0: "dataExpiry 3600000000000 = 3600000000000"
    "versionExpiry 3600000000000 = 3600000000000"
    "dataExpiry 1500000000 = 1500000000"
    "versionExpiry 1500000000 = 1000000000"
    by (simp_all add: dataExpiry_def versionExpiry_def duration_defs)
  from expiry [where ttl = 0 and st = emptyStore and st' = st1] s1
  have f1: "effectiveTTL c 0 = (if (0::int) > 0 then 0
        else if TTL (redisConfig c) > 0 then TTL (redisConfig c) else 3600000000000)"
    and g1: "map_option expiry (entries st1 (key c)) = Some (Some (dataExpiry (effectiveTTL c 0)))
      \<and> map_option expiry (entries st1 (versionKey c)) =
          Some (Some (versionExpiry (effectiveTTL c 0)))"
    by blast+
  from f1 ttl have "effectiveTTL c 0 = 3600000000000" by simp
  with g1 have e1: "map_option expiry (entries st1 (key c)) = Some (Some 3600000000000)
          \<and> map_option expiry (entries st1 (versionKey c)) = Some (Some 3600000000000)"
    by (simp only: v0)
  from expiry [where ttl = 1500000000 and st = st1 and st' = st2] s2
  have f2: "effectiveTTL c 1500000000 = (if (1500000000::int) > 0 then 1500000000
        else if TTL (redisConfig c) > 0 then TTL (redisConfig c) else 3600000000000)"
    and g2: "map_option expiry (entries st2 (key c)) =
          Some (Some (dataExpiry (effectiveTTL c 1500000000)))
      \<and> map_option expiry (entries st2 (versionKey c)) =
          Some (Some (versionExpiry (effectiveTTL c 1500000000)))"
    by blast+
  from f2 have "effectiveTTL c 1500000000 = 1500000000" by simp
  with g2 have e2: "map_option expiry (entries st2 (key c)) = Some (Some 1500000000)
          \<and> map_option expiry (entries st2 (versionKey c)) = Some (Some 1000000000)"
    by (simp only: v0)
  from new s1 e1 s2 e2 s3 show ?thesis by blast
qed

text \<open>
  The two keys of one write can end with different expiries: written with a duration of
  1500 milliseconds, the data key expires after 1500 milliseconds and the version key after
  one second.
\<close>

theorem version_key_expiry_counterexample:
  "NewRedisCache 0 (Some Client) None = Inr testAdapter
   \<and> effectiveTTL testAdapter (1500 * Millisecond) = 1500 * Millisecond
   \<and> fst (RedisCache_SetWithTTL testCodec testAdapter oneUser (1500 * Millisecond) emptyStore) = None
   \<and> map_option expiry
         (entries (snd (RedisCache_SetWithTTL testCodec testAdapter oneUser (1500 * Millisecond) emptyStore))
            (key testAdapter)) = Some (Some (1500 * Millisecond))
   \<and> map_option expiry
         (entries (snd (RedisCache_SetWithTTL testCodec testAdapter oneUser (1500 * Millisecond) emptyStore))
            (versionKey testAdapter)) = Some (Some (1 * Second))
   \<and> 1 * Second \<noteq> 1500 * Millisecond"
proof -
  have new: "NewRedisCache 0 (Some Client) None = Inr testAdapter"
    by (simp add: NewRedisCache_def DefaultRedisConfig_def validateRedisKeys_def maxRedisKeyLen_def
        testAdapter_def)
  have eff: "effectiveTTL testAdapter (1500 * Millisecond) = 1500 * Millisecond"
    by (simp add: effectiveTTL_def Millisecond_def)
  have run: "RedisCache_SetWithTTL testCodec testAdapter oneUser (1500 * Millisecond) emptyStore =
      (None, \<lparr>up = True, entries =
        [''cache:data'' \<mapsto> \<lparr>val = ''1;'', expiry = Some (1500 * Millisecond)\<rparr>,
         ''cache:data:version'' \<mapsto> \<lparr>val = ''1'', expiry = Some (1 * Second)\<rparr>]\<rparr>)"
    by (simp add: redis_defs testAdapter_def emptyStore_def testCodec_def oneUser_def testUser_def
        DefaultRedisConfig_def duration_defs decimal_one)
  have ne: "1 * Second \<noteq> 1500 * Millisecond" by (simp add: duration_defs)
  have k: "key testAdapter = ''cache:data''" "versionKey testAdapter = ''cache:data:version''"
    by (simp_all add: testAdapter_def versionKey_def DefaultRedisConfig_def)
  show ?thesis unfolding run k using new eff ne unfolding k by simp
qed


section \<open>Reading the dataset\<close>

text \<open>
  Claim C8. \<^verbatim>\<open>Get()\<close> on an adapter with a client, over a reachable store: when the data key
  is absent the result is the empty dataset and no error; when the key holds a blob,
  a maximum size is configured and the blob is longer, the result is the size error
  whatever the decoder is (the blob is not decoded); otherwise the result is the
  decoded dataset, or the decoding error when the blob does not decode.
\<close>

theorem Get_outcomes:
  fixes j :: "('v, 'x) codec_scheme"
  assumes "client c \<noteq> None" and "up st"
  shows "(entries st (key c) = None \<longrightarrow> RedisCache_Get j c st = Inr [])
     \<and> (\<forall>e. entries st (key c) = Some e \<longrightarrow>
          (if MaxValueBytes (redisConfig c) > 0 \<and> int (length (val e)) > MaxValueBytes (redisConfig c)
           then \<forall>j' :: ('v, 'x) codec_scheme. RedisCache_Get j' c st =
                  Inl (ErrValueTooLarge (length (val e)) (MaxValueBytes (redisConfig c)))
           else RedisCache_Get j c st =
                  (case Unmarshal j (val e) of None \<Rightarrow> Inl ErrUnmarshal | Some values \<Rightarrow> Inr values)))"
  using assms
  by (auto simp: RedisCache_Get_def Client_Get_def Let_def split: option.splits)

theorem Get_outcomes_witness:
  "\<exists>c c2.
     NewRedisCache 0 (Some Client) None = Inr c
   \<and> NewRedisCache 0 (Some Client) (Some (WithMaxValueBytes 1 (DefaultRedisConfig 0))) = Inr c2
   \<and> RedisCache_Get testCodec c emptyStore = Inr []
   \<and> RedisCache_Get testCodec c (blobStore ''1;'') = Inr oneUser
   \<and> RedisCache_Get testCodec c (blobStore ''invalid-json'') = Inl ErrUnmarshal
   \<and> RedisCache_Get testCodec c2 (blobStore ''1;'') = Inl (ErrValueTooLarge 2 1)"
proof -
  define c where "c = \<lparr>client = Some Client, redisConfig = DefaultRedisConfig 0, key = ''cache:data''\<rparr>"
  define c2 where "c2 = \<lparr>client = Some Client,
      redisConfig = WithMaxValueBytes 1 (DefaultRedisConfig 0), key = ''cache:data''\<rparr>"
  have new: "NewRedisCache 0 (Some Client) None = Inr c"
    by (simp add: NewRedisCache_def DefaultRedisConfig_def validateRedisKeys_def maxRedisKeyLen_def
        c_def)
  have new2: "NewRedisCache 0 (Some Client) (Some (WithMaxValueBytes 1 (DefaultRedisConfig 0))) = Inr c2"
    by (simp add: NewRedisCache_def DefaultRedisConfig_def WithMaxValueBytes_def
        validateRedisKeys_def maxRedisKeyLen_def c2_def)
  have cl: "client c \<noteq> None" "client c2 \<noteq> None" by (simp_all add: c_def c2_def)
  have up: "up emptyStore" "up (blobStore b)" for b by (simp_all add: emptyStore_def blobStore_def)
  have k: "entries emptyStore (key c) = None"
    "entries (blobStore b) (key c) = Some \<lparr>val = b, expiry = Some Hour\<rparr>"
    "entries (blobStore b) (key c2) = Some \<lparr>val = b, expiry = Some Hour\<rparr>" for b
    by (simp_all add: emptyStore_def blobStore_def c_def c2_def)
  have mx: "MaxValueBytes (redisConfig c) = 0" "MaxValueBytes (redisConfig c2) = 1"
    by (simp_all add: c_def c2_def DefaultRedisConfig_def WithMaxValueBytes_def)
  from Get_outcomes [OF cl(1) up(1), of testCodec] k(1)
  have g1: "RedisCache_Get testCodec c emptyStore = Inr []" by blast
  from Get_outcomes [OF cl(1) up(2), of "''1;''" testCodec] k(2) [of "''1;''"] mx
  have g2: "RedisCache_Get testCodec c (blobStore ''1;'') = Inr oneUser"
    by (simp add: testCodec_def oneUser_def)
  from Get_outcomes [OF cl(1) up(2), of "''invalid-json''" testCodec] k(2) [of "''invalid-json''"] mx
  have g3: "RedisCache_Get testCodec c (blobStore ''invalid-json'') = Inl ErrUnmarshal"
    by (simp add: testCodec_def)
  from Get_outcomes [OF cl(2) up(2), of "''1;''" testCodec] k(3) [of "''1;''"] mx
  have g4: "RedisCache_Get testCodec c2 (blobStore ''1;'') = Inl (ErrValueTooLarge 2 1)"
    by (simp add: numeral_2_eq_2)
  from new new2 g1 g2 g3 g4 show ?thesis by blast
qed


section \<open>The hybrid cache: memory first, then the remote store\<close>

lemma first_occurrences_distinct: "distinct xs \<Longrightarrow> first_occurrences xs = xs"
  by (induction xs) (auto simp: set_first_occurrences)

lemma lastWithKey_distinct:
  "distinct (map pk ws) \<Longrightarrow> w \<in> set ws \<Longrightarrow> lastWithKey pk ws (pk w) = Some w"
proof (induction ws)
  case Nil
  then show ?case by simp
next
  case (Cons x xs)
  show ?case
  proof (cases "w \<in> set xs")
    case True
    with Cons show ?thesis by (simp add: lastWithKey_Cons)
  next
    case False
    with Cons.prems have "w = x" and "pk x \<notin> pk ` set xs" by auto
    then show ?thesis by (simp add: lastWithKey_Cons lastWithKey_None_iff [THEN iffD2] split: option.splits)
  qed
qed

lemma dedup_distinct:
  assumes "distinct (map pk ws)"
  shows "map (\<lambda>k. the (lastWithKey pk ws k)) (first_occurrences (map pk ws)) = ws"
proof -
  have "map (\<lambda>k. the (lastWithKey pk ws k)) (first_occurrences (map pk ws)) =
        map (\<lambda>w. the (lastWithKey pk ws (pk w))) ws"
    using assms by (simp add: first_occurrences_distinct comp_def)
  also have "\<dots> = map (\<lambda>w. w) ws"
    using lastWithKey_distinct [OF assms] by (intro map_cong) auto
  finally show ?thesis by simp
qed

text \<open>
  Claim C7, amended. Let the memory cache of a hybrid cache have a primary-key extractor.
  When the remote write of \<^verbatim>\<open>Set(vs)\<close> fails with an error, the call returns that error
  and the store the failed write left, and the memory cache has been updated all the
  same, with no rollback: \<^verbatim>\<open>GetAll()\<close> on the hybrid cache is the list of the accepted
  values of \<open>vs\<close> with one value for each primary key, in the order in which the keys
  first appear, the last value of a key winning. It is the list of accepted values itself
  exactly in the case that no two accepted values share a primary key, which the last
  part states.
\<close>

theorem HybridCache_Set_updates_memory_first:
  assumes "PrimaryKeyFunc (config (memory h)) = Some pkf" and "indexes_registered (memory h)"
    and "RedisCache_Set j (redis h) vs st = (Some e, st')"
  shows "\<exists>h'. HybridCache_Set rt j h vs st = Inr (h', Some e, st')
     \<and> redis h' = redis h
     \<and> HybridCache_GetAll h' =
          map (\<lambda>k. the (lastWithKey pkf (accepted (config (memory h)) vs) k))
            (first_occurrences (map pkf (accepted (config (memory h)) vs)))
     \<and> (distinct (map pkf (accepted (config (memory h)) vs)) \<longrightarrow>
          HybridCache_GetAll h' = accepted (config (memory h)) vs)"
proof -
  from Set_GetAll [OF assms(1,2), of rt vs] obtain m where
    set: "MemoryCache_Set rt (memory h) vs = Inr m"
    and all: "MemoryCache_GetAll m =
          map (\<lambda>k. the (lastWithKey pkf (accepted (config (memory h)) vs) k))
            (first_occurrences (map pkf (accepted (config (memory h)) vs)))"
    by blast
  have "HybridCache_Set rt j h vs st = Inr (h\<lparr>memory := m\<rparr>, Some e, st')"
    by (simp add: HybridCache_Set_def set assms(3))
  moreover have "HybridCache_GetAll (h\<lparr>memory := m\<rparr>) = MemoryCache_GetAll m"
    by (simp add: HybridCache_GetAll_def)
  moreover have "redis (h\<lparr>memory := m\<rparr>) = redis h" by simp
  ultimately show ?thesis using all dedup_distinct [of pkf "accepted (config (memory h)) vs"]
    by auto
qed

theorem HybridCache_Set_updates_memory_first_witness:
  "NewHybridCache testRuntime 0 (Some testConfig) None None = Inr failingHybrid
   \<and> (\<exists>h'. HybridCache_Set testRuntime testCodec pipelineHybrid pipelineInput emptyStore =
            Inr (h', Some ErrClientNil, emptyStore)
        \<and> HybridCache_GetAll h' =
            [testUser ''3'' ''c@example.com'' ''Normalized: Third'',
             testUser ''1'' ''second@example.com'' ''Normalized: Second'',
             testUser ''2'' ''b@example.com'' ''Normalized: Two''])
   \<and> (\<exists>h'. HybridCache_Set testRuntime testCodec failingHybrid orderInput emptyStore =
            Inr (h', Some ErrClientNil, emptyStore)
        \<and> HybridCache_GetAll h' = orderInput)"
proof -
  have new: "NewHybridCache testRuntime 0 (Some testConfig) None None = Inr failingHybrid"
    by (simp add: NewHybridCache_def NewRedisCache_def DefaultRedisConfig_def validateRedisKeys_def
        maxRedisKeyLen_def failingHybrid_def keyedCache_def)
  have cfg: "config (memory pipelineHybrid) = pipelineConfig"
    "config (memory failingHybrid) = testConfig"
    by (simp_all add: pipelineHybrid_def failingHybrid_def keyedCache_def HybridCache_AddIndex_def
        NewMultiIndexCache_def MemoryCache_AddIndex_def)
  have pk: "PrimaryKeyFunc (config (memory pipelineHybrid)) = Some ID"
    "PrimaryKeyFunc (config (memory failingHybrid)) = Some ID"
    by (simp_all add: cfg pipelineConfig_def testConfig_def WithNormalizeFunc_def
        WithValidateFunc_def WithPrimaryKey_def)
  have reg: "indexes_registered (memory pipelineHybrid)"
    "indexes_registered (memory failingHybrid)"
    by (simp_all add: pipelineHybrid_def failingHybrid_def keyedCache_def HybridCache_AddIndex_def
        NewMultiIndexCache_def MemoryCache_AddIndex_def indexes_registered_def)
  have fail: "RedisCache_Set testCodec (redis pipelineHybrid) vs emptyStore =
        (Some ErrClientNil, emptyStore)"
    "RedisCache_Set testCodec (redis failingHybrid) vs emptyStore =
        (Some ErrClientNil, emptyStore)" for vs
    by (simp_all add: RedisCache_Set_def pipelineHybrid_def failingHybrid_def
        HybridCache_AddIndex_def)
  have e1: "map (\<lambda>k. the (lastWithKey ID (accepted pipelineConfig pipelineInput) k))
              (first_occurrences (map ID (accepted pipelineConfig pipelineInput))) =
            [testUser ''3'' ''c@example.com'' ''Normalized: Third'',
             testUser ''1'' ''second@example.com'' ''Normalized: Second'',
             testUser ''2'' ''b@example.com'' ''Normalized: Two'']"
    by code_simp
  have e2: "accepted testConfig orderInput = orderInput" by code_simp
  have d: "distinct (map ID orderInput)" by code_simp
  from HybridCache_Set_updates_memory_first [OF pk(1) reg(1) fail(1), of testRuntime pipelineInput]
  have w1: "\<exists>h'. HybridCache_Set testRuntime testCodec pipelineHybrid pipelineInput emptyStore =
            Inr (h', Some ErrClientNil, emptyStore)
        \<and> HybridCache_GetAll h' =
            [testUser ''3'' ''c@example.com'' ''Normalized: Third'',
             testUser ''1'' ''second@example.com'' ''Normalized: Second'',
             testUser ''2'' ''b@example.com'' ''Normalized: Two'']"
    unfolding cfg e1 by blast
  from HybridCache_Set_updates_memory_first [OF pk(2) reg(2) fail(2), of testRuntime orderInput]
  have w2: "\<exists>h'. HybridCache_Set testRuntime testCodec failingHybrid orderInput emptyStore =
            Inr (h', Some ErrClientNil, emptyStore)
        \<and> HybridCache_GetAll h' = orderInput"
    unfolding cfg e2 using d by blast
  from new w1 w2 show ?thesis by blast
qed

text \<open>
  When two accepted values share a primary key, \<^verbatim>\<open>GetAll()\<close> after the failed call is
  not the list of accepted values: on the input of the test of duplicate primary keys,
  both values are accepted and the memory cache holds the second only.
\<close>

theorem HybridCache_Set_duplicate_keys_counterexample:
  "NewHybridCache testRuntime 0 (Some testConfig) None None = Inr failingHybrid
   \<and> PrimaryKeyFunc (config (memory failingHybrid)) = Some ID
   \<and> map_sum id (fst \<circ> snd)
        (HybridCache_Set testRuntime testCodec failingHybrid duplicateInput emptyStore) =
       Inr (Some ErrClientNil)
   \<and> accepted (config (memory failingHybrid)) duplicateInput = duplicateInput
   \<and> map_sum id (HybridCache_GetAll \<circ> fst)
        (HybridCache_Set testRuntime testCodec failingHybrid duplicateInput emptyStore) =
       Inr [testUser ''1'' ''second@example.com'' ''Second'']
   \<and> [testUser ''1'' ''second@example.com'' ''Second''] \<noteq> duplicateInput"
proof -
  have new: "NewHybridCache testRuntime 0 (Some testConfig) None None = Inr failingHybrid"
    by (simp add: NewHybridCache_def NewRedisCache_def DefaultRedisConfig_def validateRedisKeys_def
        maxRedisKeyLen_def failingHybrid_def keyedCache_def)
  have cfg: "config (memory failingHybrid) = testConfig"
    by (simp add: failingHybrid_def keyedCache_def NewMultiIndexCache_def)
  have pk: "PrimaryKeyFunc (config (memory failingHybrid)) = Some ID"
    by (simp add: cfg testConfig_def WithPrimaryKey_def)
  have reg: "indexes_registered (memory failingHybrid)"
    by (simp add: failingHybrid_def keyedCache_def NewMultiIndexCache_def indexes_registered_def)
  have fail: "RedisCache_Set testCodec (redis failingHybrid) duplicateInput emptyStore =
        (Some ErrClientNil, emptyStore)"
    by (simp add: RedisCache_Set_def failingHybrid_def)
  have acc: "accepted testConfig duplicateInput = duplicateInput" by code_simp
  have e: "map (\<lambda>k. the (lastWithKey ID (accepted testConfig duplicateInput) k))
              (first_occurrences (map ID (accepted testConfig duplicateInput))) =
            [testUser ''1'' ''second@example.com'' ''Second'']"
    by code_simp
  have ne: "[testUser ''1'' ''second@example.com'' ''Second''] \<noteq> duplicateInput"
    by (simp add: duplicateInput_def)
  from Set_GetAll [OF pk reg, of testRuntime duplicateInput] obtain m where
    set: "MemoryCache_Set testRuntime (memory failingHybrid) duplicateInput = Inr m"
    and all: "MemoryCache_GetAll m = [testUser ''1'' ''second@example.com'' ''Second'']"
    unfolding cfg e by blast
  have run: "HybridCache_Set testRuntime testCodec failingHybrid duplicateInput emptyStore =
      Inr (failingHybrid\<lparr>memory := m\<rparr>, Some ErrClientNil, emptyStore)"
    by (simp add: HybridCache_Set_def set fail)
  show ?thesis
    unfolding run using new pk acc all ne by (simp add: cfg HybridCache_GetAll_def)
qed
end
